theory Spec2Isabelle
  imports Main "HOL-Library.Word" "HOL-Library.List_Lexorder" "HOL-Library.Product_Lexorder"
    "HOL-Library.AList"
begin

section \<open>Bytes and the key/value engine\<close>

text \<open>
  Keys and payloads are Go byte slices. \<open>bytes.Compare\<close> is the lexicographic order on
  byte strings (a proper prefix is smaller), which is the order of lists given by
  \<open>HOL-Library.List_Lexorder\<close>.
\<close>

type_synonym byte = "8 word"
type_synonym bytes = "byte list"

definition bytes_Compare :: "bytes \<Rightarrow> bytes \<Rightarrow> int" where
  "bytes_Compare a b = (if a < b then - 1 else if a = b then 0 else 1)"

text \<open>
  A boltdb bucket is an ordered key/value store: the list of its entries in ascending
  key order, every key once. \<open>Put\<close> replaces the value of a key that is present,
  \<open>Delete\<close> of an absent key does nothing. A cursor is the list of the entries from its
  position on: the empty list is the cursor past the last entry (Go: \<open>k == nil\<close>).
  Errors of the storage engine itself (a closed or read-only transaction) are not
  modelled.
\<close>

type_synonym ('k, 'v) bucket = "('k \<times> 'v) list"

fun bucket_Put :: "'k::linorder \<Rightarrow> 'v \<Rightarrow> ('k, 'v) bucket \<Rightarrow> ('k, 'v) bucket" where
  "bucket_Put k v [] = [(k, v)]"
| "bucket_Put k v ((k', v') # rest) =
     (if k < k' then (k, v) # (k', v') # rest
      else if k = k' then (k, v) # rest
      else (k', v') # bucket_Put k v rest)"

definition bucket_Delete :: "'k \<Rightarrow> ('k, 'v) bucket \<Rightarrow> ('k, 'v) bucket" where
  "bucket_Delete k b = filter (\<lambda>kv. fst kv \<noteq> k) b"

definition bucket_Get :: "'k \<Rightarrow> ('k, 'v) bucket \<Rightarrow> 'v option" where
  "bucket_Get k b = map_of b k"

definition cursor_First :: "('k, 'v) bucket \<Rightarrow> ('k \<times> 'v) list" where
  "cursor_First b = b"

definition cursor_Seek :: "'k::linorder \<Rightarrow> ('k, 'v) bucket \<Rightarrow> ('k \<times> 'v) list" where
  "cursor_Seek k b = dropWhile (\<lambda>kv. fst kv < k) b"

definition cursor_Next :: "('k \<times> 'v) list \<Rightarrow> ('k \<times> 'v) list" where
  "cursor_Next c = drop 1 c"

definition bucket_ok :: "('k::linorder, 'v) bucket \<Rightarrow> bool" where
  "bucket_ok b = (sorted (map fst b) \<and> distinct (map fst b))"

section \<open>Values, rows and errors\<close>

text \<open>
  A field value is a Go \<open>any\<close>; the constructors are the dynamic types the code
  distinguishes (\<open>VNil\<close> is the nil interface, what a map lookup of an absent key
  gives), and \<open>float64\<close>, the type under which \<open>encoding/json\<close> hands back every number
  (\<open>VFloat64\<close> carries the number's bits). A row is a Go \<open>map[string]any\<close>.
\<close>

datatype val =
    VNil
  | VString string
  | VBytes bytes
  | VUint64 "64 word"
  | VInt64 "64 word"
  | VInt "64 word"
  | VFloat64 "64 word"
  | VList "val list"

type_synonym row = "string \<rightharpoonup> val"

datatype error =
    ErrObjectFieldCountMismatch
  | ErrObjectMissingField string
  | ErrUniqueConstraint string
  | ErrIndexNotFound string
  | ErrIndexMetadataNotFound string
  | ErrFieldNotFoundInColumns string
  | ErrCannotMarshal val
  | ErrUnsupportedOperator "8 word"
  | ErrCodec bytes
  | ErrPanic

text \<open>
  The value codec (\<open>MarshalUnmarshaler\<close>) is injected; \<open>ErrCodec\<close> stands for whatever
  error a codec reports, \<open>ErrPanic\<close> for a run-time panic of Go (a nil dereference,
  \<open>slices.MinFunc\<close> of an empty slice).
\<close>

record MarshalUnmarshaler =
  Marshal :: "row \<Rightarrow> error + bytes"
  Unmarshal :: "bytes \<Rightarrow> error + row"

text \<open>
  \<open>orderedMarshaler.Marshal\<close>. The package \<open>rsc.io/ordered\<close> is external: \<open>oenc\<close>
  stands for \<open>ordered.CanEncode\<close> and \<open>ordered.Encode\<close> together (\<open>None\<close> when the
  list cannot be encoded).
\<close>

type_synonym orderedEncode = "val list \<Rightarrow> bytes option"

definition orderedMa_Marshal :: "orderedEncode \<Rightarrow> val \<Rightarrow> error + bytes" where
  "orderedMa_Marshal oenc v =
     (case v of
        VList vals \<Rightarrow> (case oenc vals of None \<Rightarrow> Inl (ErrCannotMarshal v) | Some b \<Rightarrow> Inr b)
      | _ \<Rightarrow> (case oenc [v] of None \<Rightarrow> Inl (ErrCannotMarshal v) | Some b \<Rightarrow> Inr b))"

section \<open>Key ranges\<close>

text \<open>
  Modelled from the spec: the type \<open>keyRange\<close> and its method \<open>contains\<close> are not among
  the source files. Section 4.5: a range is \<open>{startKey, endKey, includeStart,
  includeEnd}\<close>, and \<open>contains(k)\<close> is true iff \<open>k\<close> lies between the endpoints
  respecting inclusivity on either end; an absent endpoint (Go: \<open>nil\<close>) means unbounded
  on that side. By the same section \<open>Ne\<close> is compiled to the full range and deferred to
  residual filtering; the residual filter \<open>matchOps\<close> tests a range with \<open>contains\<close>
  only, and the comment in \<open>indexStorage.get\<close> lists ``excluded'' among the reasons for
  which \<open>contains\<close> is false of a key below \<open>endKey\<close>. A range therefore carries the
  keys that \<open>Ne\<close> excludes, and \<open>contains\<close> rejects them. A range literal of the source
  leaves them out: there are none (Go: \<open>nil\<close>).
\<close>

record keyRange =
  startKey :: "bytes option"
  endKey :: "bytes option"
  includeStart :: bool
  includeEnd :: bool
  excludes :: "bytes list"

definition keyRange_contains :: "keyRange \<Rightarrow> bytes \<Rightarrow> bool" where
  "keyRange_contains kr k =
     ((case startKey kr of None \<Rightarrow> True | Some s \<Rightarrow> s < k \<or> (s = k \<and> includeStart kr)) \<and>
      (case endKey kr of None \<Rightarrow> True | Some e \<Rightarrow> k < e \<or> (k = e \<and> includeEnd kr)) \<and>
      k \<notin> set (excludes kr))"

section \<open>Iterators\<close>

text \<open>
  A Go \<open>iter.Seq2\<close> is a function that takes the consumer's \<open>yield\<close> callback and calls
  it on each item until it returns \<open>false\<close>. The callback's effects are state passing:
  \<open>yield item s = (continue, s')\<close>. An item of \<open>iter.Seq2[T, error]\<close> is \<open>Inl err\<close> or
  \<open>Inr value\<close>.
\<close>

type_synonym ('a, 's) yield = "'a \<Rightarrow> 's \<Rightarrow> bool \<times> 's"
type_synonym ('a, 's) seq2 = "('a, 's) yield \<Rightarrow> 's \<Rightarrow> 's"

text \<open>The items an iterator hands to a consumer that never stops it.\<close>

definition collect :: "('a, 'a list) yield" where
  "collect a s = (True, s @ [a])"

definition toList :: "('a, 'a list) seq2 \<Rightarrow> 'a list" where
  "toList it = it collect []"

text \<open>
  A consumer under observation: beside the consumer's own state, \<open>stopped\<close> records that
  the callback has returned \<open>false\<close>, and \<open>violated\<close> that it was called after that.
\<close>

definition monitored :: "('a, 's) yield \<Rightarrow> ('a, 's \<times> bool \<times> bool) yield" where
  "monitored yield a m =
     (case m of (s, stopped, violated) \<Rightarrow>
        (case yield a s of (ok, s') \<Rightarrow> (ok, (s', stopped \<or> \<not> ok, violated \<or> stopped))))"

definition running :: "'s \<times> bool \<times> bool \<Rightarrow> bool" where
  "running m = (\<not> fst (snd m) \<and> \<not> snd (snd m))"

definition clean :: "'s \<times> bool \<times> bool \<Rightarrow> bool" where
  "clean m = (\<not> snd (snd m))"

definition calledAfterStop :: "('a, 's \<times> bool \<times> bool) seq2 \<Rightarrow> ('a, 's) yield \<Rightarrow> 's \<Rightarrow> bool" where
  "calledAfterStop it yield s = snd (snd (it (monitored yield) (s, False, False)))"

section \<open>DataStore\<close>

record entry =
  entry_id :: bytes
  entry_value :: row

record dataStorage =
  data_bucket :: "(bytes, bytes) bucket"
  data_sequence :: "64 word"
  data_maUn :: MarshalUnmarshaler

text \<open>
  \<open>dataStorage.insert\<close>: \<open>NextSequence\<close> increments the bucket's counter and returns
  it; the counter stays incremented when a later step fails.
\<close>

definition dataStorage_insert ::
  "orderedEncode \<Rightarrow> dataStorage \<Rightarrow> row \<Rightarrow> (error + bytes) \<times> dataStorage" where
  "dataStorage_insert oenc d v =
     (let ident = data_sequence d + 1;
          d1 = d\<lparr>data_sequence := ident\<rparr>
      in case orderedMa_Marshal oenc (VUint64 ident) of
           Inl err \<Rightarrow> (Inl err, d1)
         | Inr idBytes \<Rightarrow>
             (case Marshal (data_maUn d) v of
                Inl err \<Rightarrow> (Inl err, d1)
              | Inr dataBytes \<Rightarrow>
                  (Inr idBytes, d1\<lparr>data_bucket := bucket_Put idBytes dataBytes (data_bucket d1)\<rparr>)))"

definition dataStorage_lessThan :: "keyRange \<Rightarrow> bytes \<Rightarrow> bool" where
  "dataStorage_lessThan kr k =
     (case endKey kr of
        None \<Rightarrow> True
      | Some e \<Rightarrow> (let cmp = bytes_Compare k e in cmp < 0 \<or> (cmp = 0 \<and> includeEnd kr)))"

text \<open>The \<open>for\<close> loop of \<open>dataStorage.get\<close>, from the cursor position \<open>c\<close>.\<close>

fun dataStorage_get_loop ::
  "MarshalUnmarshaler \<Rightarrow> keyRange \<Rightarrow> (bytes \<times> bytes) list \<Rightarrow> (error + entry, 's) seq2" where
  "dataStorage_get_loop mu kr [] yield s = s"
| "dataStorage_get_loop mu kr ((k, v) # c) yield s =
     (if \<not> dataStorage_lessThan kr k then s
      else if \<not> keyRange_contains kr k then dataStorage_get_loop mu kr c yield s
      else
        (case Unmarshal mu v of
           Inl err \<Rightarrow>
             (case yield (Inl err) s of
                (ok, s') \<Rightarrow> if \<not> ok then s' else dataStorage_get_loop mu kr c yield s')
         | Inr value \<Rightarrow>
             (case yield (Inr \<lparr>entry_id = k, entry_value = value\<rparr>) s of
                (ok, s') \<Rightarrow> if \<not> ok then s' else dataStorage_get_loop mu kr c yield s')))"

text \<open>\<open>dataStorage.get\<close>; its error result is always \<open>nil\<close>.\<close>

definition dataStorage_get :: "dataStorage \<Rightarrow> keyRange \<Rightarrow> (error + entry, 's) seq2" where
  "dataStorage_get d kr yield s =
     (let c0 = (case startKey kr of
                  Some sk \<Rightarrow> cursor_Seek sk (data_bucket d)
                | None \<Rightarrow> cursor_First (data_bucket d));
          c1 = (if \<not> includeStart kr then cursor_Next c0 else c0)
      in dataStorage_get_loop (data_maUn d) kr c1 yield s)"

definition dataStorage_delete :: "dataStorage \<Rightarrow> bytes \<Rightarrow> dataStorage" where
  "dataStorage_delete d ident = d\<lparr>data_bucket := bucket_Delete ident (data_bucket d)\<rparr>"

section \<open>IndexStore: the cursor scan of \<open>indexStorage.get\<close>\<close>

text \<open>
  The index storage whose source is present keeps one nested bucket per index name and
  stores, for an \<open>indexLocator {Key []byte, Id uint64}\<close>, the composite key
  \<open>orderedMa.Marshal([]any{key, id})\<close> with an empty value. \<open>orderedMa.Unmarshal\<close> is
  called by \<open>get\<close> but is not among the source files and decodes with the external
  package: \<open>odec\<close> stands for it.
\<close>

type_synonym orderedDecode = "bytes \<Rightarrow> error + val list"

type_synonym indexStorage = "string \<rightharpoonup> (bytes, bytes) bucket"

record indexLocator =
  Key :: bytes
  Id :: "64 word"

definition indexStorage_insert ::
  "orderedEncode \<Rightarrow> indexStorage \<Rightarrow> string \<Rightarrow> indexLocator \<Rightarrow> error option \<times> indexStorage" where
  "indexStorage_insert oenc idx name idxLoc =
     (case idx name of
        None \<Rightarrow> (Some (ErrIndexNotFound name), idx)
      | Some indexBk \<Rightarrow>
          (case orderedMa_Marshal oenc (VList [VBytes (Key idxLoc), VUint64 (Id idxLoc)]) of
             Inl err \<Rightarrow> (Some err, idx)
           | Inr compositeKey \<Rightarrow> (None, idx(name \<mapsto> bucket_Put compositeKey [] indexBk))))"

definition bytes_of_string :: "string \<Rightarrow> bytes" where
  "bytes_of_string str = map (\<lambda>c. of_nat (of_char c)) str"

definition indexStorage_lessThanEnd :: "keyRange \<Rightarrow> bytes \<Rightarrow> bool" where
  "indexStorage_lessThanEnd kr k =
     (case endKey kr of
        None \<Rightarrow> True
      | Some e \<Rightarrow> (let cmpEnd = bytes_Compare k e in cmpEnd < 0 \<or> (cmpEnd = 0 \<and> includeEnd kr)))"

text \<open>The type switches on the two decoded components.\<close>

definition indexStorage_valBytes :: "val \<Rightarrow> bytes option" where
  "indexStorage_valBytes p =
     (case p of VBytes v \<Rightarrow> Some v | VString v \<Rightarrow> Some (bytes_of_string v) | _ \<Rightarrow> None)"

definition indexStorage_id :: "val \<Rightarrow> 64 word option" where
  "indexStorage_id p =
     (case p of VUint64 v \<Rightarrow> Some v | VInt64 v \<Rightarrow> Some v | VInt v \<Rightarrow> Some v | _ \<Rightarrow> None)"

text \<open>The \<open>for\<close> loop of \<open>indexStorage.get\<close>, from the cursor position \<open>c\<close>.\<close>

fun indexStorage_get_loop ::
  "orderedDecode \<Rightarrow> keyRange \<Rightarrow> (bytes \<times> bytes) list \<Rightarrow> (error + 64 word, 's) seq2" where
  "indexStorage_get_loop odec kr [] yield s = s"
| "indexStorage_get_loop odec kr ((k, v) # c) yield s =
     (case odec k of
        Inl err \<Rightarrow>
          (case yield (Inl err) s of
             (ok, s') \<Rightarrow> if \<not> ok then s' else indexStorage_get_loop odec kr c yield s')
      | Inr parts \<Rightarrow>
          if length parts \<noteq> 2 then indexStorage_get_loop odec kr c yield s
          else
            (case indexStorage_valBytes (parts ! 0) of
               None \<Rightarrow> indexStorage_get_loop odec kr c yield s
             | Some valBytes \<Rightarrow>
                 (case indexStorage_id (parts ! 1) of
                    None \<Rightarrow> indexStorage_get_loop odec kr c yield s
                  | Some ident \<Rightarrow>
                      if \<not> keyRange_contains kr valBytes then
                        (if \<not> indexStorage_lessThanEnd kr valBytes then s
                         else indexStorage_get_loop odec kr c yield s)
                      else
                        (case yield (Inr ident) s of
                           (ok, s') \<Rightarrow>
                             if \<not> ok then s' else indexStorage_get_loop odec kr c yield s'))))"

definition indexStorage_get ::
  "orderedEncode \<Rightarrow> orderedDecode \<Rightarrow> indexStorage \<Rightarrow> string \<Rightarrow> keyRange \<Rightarrow>
     error + (error + 64 word, 's) seq2" where
  "indexStorage_get oenc odec idx name kr =
     (case idx name of
        None \<Rightarrow> Inl (ErrIndexNotFound name)
      | Some idxBk \<Rightarrow>
          Inr (\<lambda>yield s.
            (case startKey kr of
               Some sk \<Rightarrow>
                 (case orderedMa_Marshal oenc (VList [VBytes sk]) of
                    Inl err \<Rightarrow> snd (yield (Inl err) s)
                  | Inr seekPrefix \<Rightarrow>
                      indexStorage_get_loop odec kr (cursor_Seek seekPrefix idxBk) yield s)
             | None \<Rightarrow> indexStorage_get_loop odec kr (cursor_First idxBk) yield s)))"

text \<open>
  What the specification says of the same scan, for an index over \<open>k\<close> columns: an entry
  is skipped when its decoded component count is not exactly \<open>k + 1\<close>.
\<close>

definition spec_skips_entry :: "nat \<Rightarrow> val list \<Rightarrow> bool" where
  "spec_skips_entry k parts = (length parts \<noteq> k + 1)"

section \<open>Predicates and their compilation to ranges\<close>

type_synonym OpType = "8 word"

definition OpEq :: OpType where "OpEq = 2"
definition OpNe :: OpType where "OpNe = 5"
definition OpGt :: OpType where "OpGt = 4"
definition OpLt :: OpType where "OpLt = 1"
definition OpGe :: OpType where "OpGe = 6"
definition OpLe :: OpType where "OpLe = 3"

record Op =
  Field :: string
  Value :: val
  Type :: OpType

definition Eq :: "string \<Rightarrow> val \<Rightarrow> Op" where
  "Eq field value = \<lparr>Field = field, Value = value, Type = OpEq\<rparr>"

definition Ne :: "string \<Rightarrow> val \<Rightarrow> Op" where
  "Ne field value = \<lparr>Field = field, Value = value, Type = OpNe\<rparr>"

definition Gt :: "string \<Rightarrow> val \<Rightarrow> Op" where
  "Gt field value = \<lparr>Field = field, Value = value, Type = OpGt\<rparr>"

definition Lt :: "string \<Rightarrow> val \<Rightarrow> Op" where
  "Lt field value = \<lparr>Field = field, Value = value, Type = OpLt\<rparr>"

definition Ge :: "string \<Rightarrow> val \<Rightarrow> Op" where
  "Ge field value = \<lparr>Field = field, Value = value, Type = OpGe\<rparr>"

definition Le :: "string \<Rightarrow> val \<Rightarrow> Op" where
  "Le field value = \<lparr>Field = field, Value = value, Type = OpLe\<rparr>"

text \<open>
  Modelled from the spec: \<open>toRanges\<close> is not among the source files. Section 4.5: for
  each operator the encoded value \<open>v\<close> is computed; every field starts with the range
  \<open>(-\<infinity>, +\<infinity>)\<close>, which is intersected with \<open>[v, v]\<close> for \<open>Eq\<close>, \<open>(v, +\<infinity>)\<close> for \<open>Gt\<close>,
  \<open>[v, +\<infinity>)\<close> for \<open>Ge\<close>, \<open>(-\<infinity>, v)\<close> for \<open>Lt\<close>, \<open>(-\<infinity>, v]\<close> for \<open>Le\<close>, and \<open>Ne\<close> is
  compiled to the full range with \<open>v\<close> excluded (intersection collects the excluded
  keys of both ranges). The result is a Go map from field to range; it is kept as
  an association list (one entry per field, in the order the fields first occur) because
  the code iterates over it.
\<close>

definition fullRange :: keyRange where
  "fullRange = \<lparr>startKey = None, endKey = None, includeStart = True, includeEnd = True, excludes = []\<rparr>"

definition opRange :: "OpType \<Rightarrow> bytes \<Rightarrow> error + keyRange" where
  "opRange t v =
     (if t = OpEq then
        Inr \<lparr>startKey = Some v, endKey = Some v, includeStart = True, includeEnd = True, excludes = []\<rparr>
      else if t = OpGt then
        Inr \<lparr>startKey = Some v, endKey = None, includeStart = False, includeEnd = True, excludes = []\<rparr>
      else if t = OpGe then
        Inr \<lparr>startKey = Some v, endKey = None, includeStart = True, includeEnd = True, excludes = []\<rparr>
      else if t = OpLt then
        Inr \<lparr>startKey = None, endKey = Some v, includeStart = True, includeEnd = False, excludes = []\<rparr>
      else if t = OpLe then
        Inr \<lparr>startKey = None, endKey = Some v, includeStart = True, includeEnd = True, excludes = []\<rparr>
      else if t = OpNe then Inr (fullRange\<lparr>excludes := [v]\<rparr>)
      else Inl (ErrUnsupportedOperator t))"

definition intersectRange :: "keyRange \<Rightarrow> keyRange \<Rightarrow> keyRange" where
  "intersectRange a b =
     (let (sk, si) =
            (case (startKey a, startKey b) of
               (None, _) \<Rightarrow> (startKey b, includeStart b)
             | (Some x, None) \<Rightarrow> (Some x, includeStart a)
             | (Some x, Some y) \<Rightarrow>
                 if x < y then (Some y, includeStart b)
                 else if y < x then (Some x, includeStart a)
                 else (Some x, includeStart a \<and> includeStart b));
          (ek, ei) =
            (case (endKey a, endKey b) of
               (None, _) \<Rightarrow> (endKey b, includeEnd b)
             | (Some x, None) \<Rightarrow> (Some x, includeEnd a)
             | (Some x, Some y) \<Rightarrow>
                 if x < y then (Some x, includeEnd a)
                 else if y < x then (Some y, includeEnd b)
                 else (Some x, includeEnd a \<and> includeEnd b))
      in \<lparr>startKey = sk, endKey = ek, includeStart = si, includeEnd = ei,
         excludes = excludes a @ excludes b\<rparr>)"

fun toRanges_from ::
  "orderedEncode \<Rightarrow> (string \<times> keyRange) list \<Rightarrow> Op list \<Rightarrow> error + (string \<times> keyRange) list" where
  "toRanges_from oenc ranges [] = Inr ranges"
| "toRanges_from oenc ranges (operator # ops) =
     (case orderedMa_Marshal oenc (Value operator) of
        Inl err \<Rightarrow> Inl err
      | Inr v \<Rightarrow>
          (case opRange (Type operator) v of
             Inl err \<Rightarrow> Inl err
           | Inr r \<Rightarrow>
               (let old = (case map_of ranges (Field operator) of None \<Rightarrow> fullRange | Some r0 \<Rightarrow> r0)
                in toRanges_from oenc
                     (AList.update (Field operator) (intersectRange old r) ranges) ops)))"

definition toRanges :: "orderedEncode \<Rightarrow> Op list \<Rightarrow> error + (string \<times> keyRange) list" where
  "toRanges oenc ops = toRanges_from oenc [] ops"

section \<open>The stores a relation calls\<close>

text \<open>
  Modelled from the spec: the index storage that \<open>persistent.go\<close> calls
  (\<open>insert(idxName, keyParts, id)\<close> returning the stored key, \<open>delete\<close> by that key,
  \<open>get\<close> yielding row id bytes) is not among the source files. Section 4.3: \<open>insert\<close>
  encodes the composite key \<open>keyParts ++ [idBytes]\<close>, stores it with an empty value and
  returns the stored key; \<open>delete\<close> removes the exact entry; \<open>get\<close> scans the index
  bucket over the range, yields the trailing row id of each composite key, and ends
  once the leading key component exceeds \<open>endKey\<close> (respecting \<open>includeEnd\<close>). A missing
  index bucket is \<open>IndexNotFound\<close>. By sections 3 and 4.1 the codec is invertible and
  the byte order of an encoded tuple is the lexicographic order of the tuple; the
  composite key is therefore kept decoded, as the pair of the encoded key parts and the
  row id bytes, and an index bucket is ordered by these pairs lexicographically.
\<close>

type_synonym compositeKey = "bytes \<times> bytes"
type_synonym indexStore = "string \<rightharpoonup> (compositeKey, bytes) bucket"

definition indexes_insert ::
  "orderedEncode \<Rightarrow> indexStore \<Rightarrow> string \<Rightarrow> val list \<Rightarrow> bytes \<Rightarrow>
     (error + compositeKey) \<times> indexStore" where
  "indexes_insert oenc idx name keyParts ident =
     (case idx name of
        None \<Rightarrow> (Inl (ErrIndexNotFound name), idx)
      | Some indexBk \<Rightarrow>
          (case orderedMa_Marshal oenc (VList keyParts) of
             Inl err \<Rightarrow> (Inl err, idx)
           | Inr key \<Rightarrow> (Inr (key, ident), idx(name \<mapsto> bucket_Put (key, ident) [] indexBk))))"

definition indexes_delete ::
  "indexStore \<Rightarrow> string \<Rightarrow> val list \<Rightarrow> compositeKey \<Rightarrow> error option \<times> indexStore" where
  "indexes_delete idx name keyParts keyBytes =
     (case idx name of
        None \<Rightarrow> (Some (ErrIndexNotFound name), idx)
      | Some indexBk \<Rightarrow> (None, idx(name \<mapsto> bucket_Delete keyBytes indexBk)))"

fun indexes_get_loop :: "keyRange \<Rightarrow> (compositeKey \<times> bytes) list \<Rightarrow> (bytes, 's) seq2" where
  "indexes_get_loop kr [] yield s = s"
| "indexes_get_loop kr (((key, ident), v) # c) yield s =
     (if \<not> keyRange_contains kr key then
        (if \<not> indexStorage_lessThanEnd kr key then s else indexes_get_loop kr c yield s)
      else
        (case yield ident s of
           (ok, s') \<Rightarrow> if \<not> ok then s' else indexes_get_loop kr c yield s'))"

definition indexes_get :: "indexStore \<Rightarrow> string \<Rightarrow> keyRange \<Rightarrow> error + (bytes, 's) seq2" where
  "indexes_get idx name kr =
     (case idx name of
        None \<Rightarrow> Inl (ErrIndexNotFound name)
      | Some idxBk \<Rightarrow>
          Inr (\<lambda>yield s.
            (case startKey kr of
               Some sk \<Rightarrow> indexes_get_loop kr (cursor_Seek (sk, []) idxBk) yield s
             | None \<Rightarrow> indexes_get_loop kr (cursor_First idxBk) yield s)))"

text \<open>
  Modelled from the spec: the reverse index storage is not among the source files.
  Section 4.4: the bucket \<open>reverseIdx\<close> holds, per row id, the map from index name to
  the key stored for the row in that index; \<open>insert\<close>, \<open>get\<close> and \<open>delete\<close> are the
  obvious ones. The map is kept unserialised; it is an association list because
  \<open>Delete\<close> iterates over it. A row id without a record has no payload to decode, and
  \<open>get\<close> reports a codec error.
\<close>

type_synonym reverseIndexStorage = "(bytes, (string \<times> compositeKey) list) bucket"

definition reverseIdx_insert ::
  "reverseIndexStorage \<Rightarrow> bytes \<Rightarrow> (string \<times> compositeKey) list \<Rightarrow> reverseIndexStorage" where
  "reverseIdx_insert r ident revIdx = bucket_Put ident revIdx r"

definition reverseIdx_get ::
  "reverseIndexStorage \<Rightarrow> bytes \<Rightarrow> error + (string \<times> compositeKey) list" where
  "reverseIdx_get r ident =
     (case bucket_Get ident r of None \<Rightarrow> Inl (ErrCodec []) | Some revIdx \<Rightarrow> Inr revIdx)"

definition reverseIdx_delete :: "reverseIndexStorage \<Rightarrow> bytes \<Rightarrow> reverseIndexStorage" where
  "reverseIdx_delete r ident = bucket_Delete ident r"

section \<open>Relations\<close>

text \<open>
  The struct \<open>Persistent\<close>. The metadata maps are Go maps the code iterates over: they
  are association lists, in whatever order the iteration takes.
\<close>

record Persistent =
  data :: dataStorage
  indexes :: indexStore
  reverseIdx :: reverseIndexStorage
  indexesMeta :: "(string \<times> string list) list"
  uniquesMeta :: "(string \<times> string list) list"
  columns :: "string list"
  relation :: string
  allIndexes :: "string list"

text \<open>\<open>keyParts[i] = obj[kf]\<close>: the lookup of an absent field gives the nil interface.\<close>

definition keyPartsOf :: "row \<Rightarrow> string list \<Rightarrow> val list" where
  "keyPartsOf obj keyFields = map (\<lambda>kf. case obj kf of None \<Rightarrow> VNil | Some v \<Rightarrow> v) keyFields"

subsection \<open>\<open>matchOps\<close>\<close>

fun matchOps_parts :: "row \<Rightarrow> string list \<Rightarrow> error + val list" where
  "matchOps_parts value [] = Inr []"
| "matchOps_parts value (col # cols) =
     (case value col of
        None \<Rightarrow> Inl (ErrObjectMissingField col)
      | Some part \<Rightarrow>
          (case matchOps_parts value cols of
             Inl err \<Rightarrow> Inl err
           | Inr parts \<Rightarrow> Inr (part # parts)))"

text \<open>The first loop of \<open>matchOps\<close>: the composite values of the ranges that name an index.\<close>

fun matchOps_composite ::
  "Persistent \<Rightarrow> row \<Rightarrow> string \<Rightarrow> (string \<times> keyRange) list \<Rightarrow> (string \<rightharpoonup> val) \<Rightarrow>
     error + (string \<rightharpoonup> val)" where
  "matchOps_composite pr value skip [] compositeValue = Inr compositeValue"
| "matchOps_composite pr value skip ((k, r) # keyRanges) compositeValue =
     (if k = skip then matchOps_composite pr value skip keyRanges compositeValue
      else if value k \<noteq> None then matchOps_composite pr value skip keyRanges compositeValue
      else
        (case map_of (indexesMeta pr) k of
           Some cols \<Rightarrow>
             (case matchOps_parts value cols of
                Inl err \<Rightarrow> Inl err
              | Inr parts \<Rightarrow>
                  matchOps_composite pr value skip keyRanges (compositeValue(k \<mapsto> VList parts)))
         | None \<Rightarrow>
             (case map_of (uniquesMeta pr) k of
                Some cols \<Rightarrow>
                  (case matchOps_parts value cols of
                     Inl err \<Rightarrow> Inl err
                   | Inr parts \<Rightarrow>
                       matchOps_composite pr value skip keyRanges
                         (compositeValue(k \<mapsto> VList parts)))
              | None \<Rightarrow> Inl (ErrFieldNotFoundInColumns k))))"

text \<open>The second loop of \<open>matchOps\<close>: every range but the skipped one is tested.\<close>

fun matchOps_test ::
  "orderedEncode \<Rightarrow> row \<Rightarrow> string \<Rightarrow> (string \<rightharpoonup> val) \<Rightarrow> (string \<times> keyRange) list \<Rightarrow>
     error + bool" where
  "matchOps_test oenc value skip compositeValue [] = Inr True"
| "matchOps_test oenc value skip compositeValue ((name, r) # keyRanges) =
     (if name = skip then matchOps_test oenc value skip compositeValue keyRanges
      else
        (case (case compositeValue name of Some v \<Rightarrow> Some v | None \<Rightarrow> value name) of
           None \<Rightarrow> Inl (ErrFieldNotFoundInColumns name)
         | Some v \<Rightarrow>
             (case orderedMa_Marshal oenc v of
                Inl err \<Rightarrow> Inl err
              | Inr vBytes \<Rightarrow>
                  if \<not> keyRange_contains r vBytes then Inr False
                  else matchOps_test oenc value skip compositeValue keyRanges)))"

definition matchOps ::
  "orderedEncode \<Rightarrow> Persistent \<Rightarrow> row \<Rightarrow> (string \<times> keyRange) list \<Rightarrow> string \<Rightarrow> error + bool" where
  "matchOps oenc pr value keyRanges skip =
     (case matchOps_composite pr value skip keyRanges Map.empty of
        Inl err \<Rightarrow> Inl err
      | Inr compositeValue \<Rightarrow> matchOps_test oenc value skip compositeValue keyRanges)"

subsection \<open>The planner \<open>iter\<close>\<close>

text \<open>
  \<open>slices.MinFunc\<close> of the Go standard library: the first minimal element; it panics on
  an empty slice (\<open>None\<close>).
\<close>

definition slices_MinFunc :: "'a list \<Rightarrow> ('a \<Rightarrow> 'a \<Rightarrow> int) \<Rightarrow> 'a option" where
  "slices_MinFunc x cmp =
     (case x of
        [] \<Rightarrow> None
      | m0 # rest \<Rightarrow> Some (foldl (\<lambda>m xi. if cmp xi m < 0 then xi else m) m0 rest))"

text \<open>
  \<open>ranges[a].distance()\<close>. The method \<open>distance\<close> is not among the source files and the
  specification only says that it returns a byte string: \<open>dist\<close> stands for it. The
  names compared are keys of \<open>ranges\<close>; the lookup of any other name would give a nil
  range.
\<close>

type_synonym distance = "keyRange \<Rightarrow> bytes"

definition distanceOf :: "distance \<Rightarrow> (string \<times> keyRange) list \<Rightarrow> string \<Rightarrow> bytes" where
  "distanceOf dist ranges a = (case map_of ranges a of None \<Rightarrow> [] | Some r \<Rightarrow> dist r)"

definition selectIndexes :: "Persistent \<Rightarrow> (string \<times> keyRange) list \<Rightarrow> string list" where
  "selectIndexes pr ranges = filter (\<lambda>idxName. map_of ranges idxName \<noteq> None) (allIndexes pr)"

definition shortestRange ::
  "distance \<Rightarrow> (string \<times> keyRange) list \<Rightarrow> string list \<Rightarrow> string option" where
  "shortestRange dist ranges selectedIndexes =
     slices_MinFunc selectedIndexes
       (\<lambda>a b. bytes_Compare (distanceOf dist ranges a) (distanceOf dist ranges b))"

text \<open>The body shared by both scans: one entry of the DataStore, after the error check.\<close>

definition iter_match ::
  "orderedEncode \<Rightarrow> Persistent \<Rightarrow> (string \<times> keyRange) list \<Rightarrow> string \<Rightarrow>
     (error + entry, 's) yield \<Rightarrow> (error + entry, 's) yield" where
  "iter_match oenc pr ranges skip yield item s =
     (case item of
        Inl err \<Rightarrow> yield (Inl err) s
      | Inr e \<Rightarrow>
          (case matchOps oenc pr (entry_value e) ranges skip of
             Inl err \<Rightarrow> yield (Inl err) s
           | Inr matches \<Rightarrow> if matches then yield (Inr e) s else (True, s)))"

text \<open>
  The full scan. \<open>return\<close> in the body of a range-over-func loop makes the loop's
  callback return \<open>false\<close>; \<open>continue\<close> makes it return \<open>true\<close>.
\<close>

definition iter_fullScan ::
  "orderedEncode \<Rightarrow> Persistent \<Rightarrow> (string \<times> keyRange) list \<Rightarrow> (error + entry, 's) seq2" where
  "iter_fullScan oenc pr ranges yield s =
     dataStorage_get (data pr) fullRange (iter_match oenc pr ranges [] yield) s"

text \<open>
  The index scan. The inner loop's \<open>return\<close> leaves the enclosing function: the inner
  callback records it beside the consumer's state, and the outer callback then returns
  \<open>false\<close> to the index iterator.
\<close>

definition iter_indexScan ::
  "orderedEncode \<Rightarrow> Persistent \<Rightarrow> (string \<times> keyRange) list \<Rightarrow> string \<Rightarrow>
     (bytes, 's) seq2 \<Rightarrow> (error + entry, 's) seq2" where
  "iter_indexScan oenc pr ranges shortestRangeIdxName idxes yield s =
     idxes
       (\<lambda>idBytes s0.
          (case dataStorage_get (data pr)
                  \<lparr>startKey = Some idBytes, endKey = Some idBytes,
                   includeStart = True, includeEnd = True, excludes = []\<rparr>
                  (\<lambda>item (s1, returned).
                     (case iter_match oenc pr ranges shortestRangeIdxName yield item s1 of
                        (ok, s2) \<Rightarrow> (ok, (s2, \<not> ok))))
                  (s0, False) of
             (s3, returned) \<Rightarrow> (\<not> returned, s3)))
       s"

definition iter ::
  "orderedEncode \<Rightarrow> distance \<Rightarrow> Persistent \<Rightarrow> Op list \<Rightarrow> error + (error + entry, 's) seq2" where
  "iter oenc dist pr ops =
     (case toRanges oenc ops of
        Inl err \<Rightarrow> Inl err
      | Inr ranges \<Rightarrow>
          (let selectedIndexes = selectIndexes pr ranges
           in if length selectedIndexes = 0 then Inr (iter_fullScan oenc pr ranges)
              else
                (case shortestRange dist ranges selectedIndexes of
                   None \<Rightarrow> Inl ErrPanic
                 | Some shortestRangeIdxName \<Rightarrow>
                     (case map_of ranges shortestRangeIdxName of
                        None \<Rightarrow> Inl ErrPanic
                      | Some rangeIdx \<Rightarrow>
                          (case indexes_get (indexes pr) shortestRangeIdxName rangeIdx of
                             Inl err \<Rightarrow> Inl err
                           | Inr idxes \<Rightarrow>
                               Inr (iter_indexScan oenc pr ranges shortestRangeIdxName idxes))))))"

subsection \<open>\<open>Select\<close>, \<open>Insert\<close> and \<open>Delete\<close>\<close>

definition Select ::
  "orderedEncode \<Rightarrow> distance \<Rightarrow> Persistent \<Rightarrow> Op list \<Rightarrow> error + (error + row, 's) seq2" where
  "Select oenc dist pr ops =
     (case iter oenc dist pr ops of
        Inl err \<Rightarrow> Inl err
      | Inr iterEntries \<Rightarrow>
          Inr (\<lambda>yield s.
            iterEntries
              (\<lambda>item s0.
                 (case item of
                    Inl err \<Rightarrow> yield (Inl err) s0
                  | Inr e \<Rightarrow> yield (Inr (entry_value e)) s0))
              s))"

text \<open>
  The probe of the unique indexes. \<open>for range exists { return ... }\<close> returns at the
  first item the index iterator yields.
\<close>

fun Insert_checkUniques ::
  "orderedEncode \<Rightarrow> indexStore \<Rightarrow> row \<Rightarrow> (string \<times> string list) list \<Rightarrow> error option" where
  "Insert_checkUniques oenc idx obj [] = None"
| "Insert_checkUniques oenc idx obj ((uniqueName, keyFields) # rest) =
     (case toRanges oenc [Eq uniqueName (VList (keyPartsOf obj keyFields))] of
        Inl err \<Rightarrow> Some err
      | Inr idxRanges \<Rightarrow>
          (case map_of idxRanges uniqueName of
             None \<Rightarrow> Some ErrPanic
           | Some idxRange \<Rightarrow>
               (case indexes_get idx uniqueName idxRange of
                  Inl err \<Rightarrow> Some err
                | Inr exists \<Rightarrow>
                    if exists (\<lambda>ident found. (False, True)) False
                    then Some (ErrUniqueConstraint uniqueName)
                    else Insert_checkUniques oenc idx obj rest)))"

text \<open>One of the two loops that write the index entries and record them in \<open>revIdx\<close>.\<close>

fun Insert_updateIndexes ::
  "orderedEncode \<Rightarrow> row \<Rightarrow> bytes \<Rightarrow> (string \<times> string list) list \<Rightarrow> indexStore \<Rightarrow>
     (string \<times> compositeKey) list \<Rightarrow> error option \<times> indexStore \<times> (string \<times> compositeKey) list" where
  "Insert_updateIndexes oenc obj ident [] idx revIdx = (None, idx, revIdx)"
| "Insert_updateIndexes oenc obj ident ((idxName, keyFields) # rest) idx revIdx =
     (case indexes_insert oenc idx idxName (keyPartsOf obj keyFields) ident of
        (Inl err, idx') \<Rightarrow> (Some err, idx', revIdx)
      | (Inr revIdxField, idx') \<Rightarrow>
          Insert_updateIndexes oenc obj ident rest idx' (AList.update idxName revIdxField revIdx))"

text \<open>
  \<open>Insert\<close> returns its error and the relation as its writes have left it: on an error
  the writes made so far stay (the caller is expected to roll the transaction back).
\<close>

definition Insert :: "orderedEncode \<Rightarrow> Persistent \<Rightarrow> row \<Rightarrow> error option \<times> Persistent" where
  "Insert oenc pr obj =
     (if card (dom obj) \<noteq> length (columns pr) then (Some ErrObjectFieldCountMismatch, pr)
      else
        (case find (\<lambda>col. obj col = None) (columns pr) of
           Some col \<Rightarrow> (Some (ErrObjectMissingField col), pr)
         | None \<Rightarrow>
             (case dataStorage_insert oenc (data pr) obj of
                (Inl err, d) \<Rightarrow> (Some err, pr\<lparr>data := d\<rparr>)
              | (Inr ident, d) \<Rightarrow>
                  (let pr1 = pr\<lparr>data := d\<rparr>
                   in case Insert_checkUniques oenc (indexes pr1) obj (uniquesMeta pr1) of
                        Some err \<Rightarrow> (Some err, pr1)
                      | None \<Rightarrow>
                          (case Insert_updateIndexes oenc obj ident (indexesMeta pr1)
                                  (indexes pr1) [] of
                             (Some err, idx1, revIdx1) \<Rightarrow> (Some err, pr1\<lparr>indexes := idx1\<rparr>)
                           | (None, idx1, revIdx1) \<Rightarrow>
                               (case Insert_updateIndexes oenc obj ident (uniquesMeta pr1)
                                       idx1 revIdx1 of
                                  (Some err, idx2, revIdx2) \<Rightarrow>
                                    (Some err, pr1\<lparr>indexes := idx2\<rparr>)
                                | (None, idx2, revIdx2) \<Rightarrow>
                                    (None,
                                     pr1\<lparr>indexes := idx2,
                                         reverseIdx :=
                                           reverseIdx_insert (reverseIdx pr1) ident revIdx2\<rparr>)))))))"

text \<open>The loop of \<open>Delete\<close> over the reverse index record of one row.\<close>

fun Delete_indexes ::
  "Persistent \<Rightarrow> entry \<Rightarrow> (string \<times> compositeKey) list \<Rightarrow> indexStore \<Rightarrow>
     error option \<times> indexStore" where
  "Delete_indexes pr e [] idx = (None, idx)"
| "Delete_indexes pr e ((idxName, revIdxField) # rest) idx =
     (case map_of (indexesMeta pr) idxName of
        None \<Rightarrow> (Some (ErrIndexMetadataNotFound idxName), idx)
      | Some keyFields \<Rightarrow>
          (case indexes_delete idx idxName (keyPartsOf (entry_value e) keyFields) revIdxField of
             (Some err, idx') \<Rightarrow> (Some err, idx')
           | (None, idx') \<Rightarrow> Delete_indexes pr e rest idx'))"

text \<open>
  The body of the loop of \<open>Delete\<close>, as the callback handed to the iterator: its state is
  the relation as written so far and the error to return. The iterator itself reads the
  stores as they were when \<open>iter\<close> was called. In the code the cursors of the iterator
  run over the buckets the body deletes from, so that after the first deleted row the
  items may differ from these (what a cursor does once the entry under it is deleted is
  left to the storage engine). The statements about \<open>Delete\<close> below do not depend on
  the difference: they concern the first row handed over, or hold whatever rows are
  handed over.
\<close>

definition Delete_body :: "(error + entry, Persistent \<times> error option) yield" where
  "Delete_body item st =
     (case st of (pr, res) \<Rightarrow>
        (case item of
           Inl err \<Rightarrow> (False, (pr, Some err))
         | Inr e \<Rightarrow>
             (case reverseIdx_get (reverseIdx pr) (entry_id e) of
                Inl err \<Rightarrow> (False, (pr, Some err))
              | Inr revIdx \<Rightarrow>
                  (case Delete_indexes pr e revIdx (indexes pr) of
                     (Some err, idx') \<Rightarrow> (False, (pr\<lparr>indexes := idx'\<rparr>, Some err))
                   | (None, idx') \<Rightarrow>
                       (True,
                        (pr\<lparr>indexes := idx',
                            reverseIdx := reverseIdx_delete (reverseIdx pr) (entry_id e),
                            data := dataStorage_delete (data pr) (entry_id e)\<rparr>,
                         None))))))"

definition Delete ::
  "orderedEncode \<Rightarrow> distance \<Rightarrow> Persistent \<Rightarrow> Op list \<Rightarrow> error option \<times> Persistent" where
  "Delete oenc dist pr ops =
     (case iter oenc dist pr ops of
        Inl err \<Rightarrow> (Some err, pr)
      | Inr iterEntries \<Rightarrow>
          (case iterEntries Delete_body (pr, None) of (pr', res) \<Rightarrow> (res, pr')))"

section \<open>Example relations\<close>

text \<open>
  Concrete stand-ins for the injected parts, used to run the definitions: an ordered
  codec for lists of small unsigned integers (one byte each), a value codec for rows of
  two such columns, and a distance that ranks a point range before any other.
\<close>

definition demo_oenc :: orderedEncode where
  "demo_oenc vals =
     (if list_all (\<lambda>v. case v of VUint64 w \<Rightarrow> w < 256 | _ \<Rightarrow> False) vals
      then Some (map (\<lambda>v. case v of VUint64 w \<Rightarrow> ucast w | _ \<Rightarrow> 0) vals)
      else None)"

definition demo_maUn :: "string \<Rightarrow> string \<Rightarrow> MarshalUnmarshaler" where
  "demo_maUn c1 c2 =
     \<lparr>Marshal = (\<lambda>obj.
        (case obj c1 of
           Some (VUint64 x) \<Rightarrow>
             (case obj c2 of
                Some (VUint64 y) \<Rightarrow> Inr [ucast x, ucast y]
              | _ \<Rightarrow> Inl (ErrCodec []))
         | _ \<Rightarrow> Inl (ErrCodec []))),
      Unmarshal = (\<lambda>b.
        (case b of
           [x, y] \<Rightarrow> Inr [c1 \<mapsto> VUint64 (ucast x), c2 \<mapsto> VUint64 (ucast y)]
         | _ \<Rightarrow> Inl (ErrCodec b)))\<rparr>"

definition demo_dist :: distance where
  "demo_dist kr =
     (case startKey kr of
        None \<Rightarrow> [255]
      | Some s \<Rightarrow> (case endKey kr of None \<Rightarrow> [255] | Some e \<Rightarrow> if s = e then [] else [1]))"

text \<open>The relation \<open>users(id, email)\<close> with \<open>email\<close> unique, empty.\<close>

definition demo_users :: Persistent where
  "demo_users =
     \<lparr>data = \<lparr>data_bucket = [], data_sequence = 0, data_maUn = demo_maUn ''id'' ''email''\<rparr>,
      indexes = [''email'' \<mapsto> []],
      reverseIdx = [],
      indexesMeta = [],
      uniquesMeta = [(''email'', [''email''])],
      columns = [''id'', ''email''],
      relation = ''users'',
      allIndexes = [''email'']\<rparr>"

text \<open>The relation \<open>events(a, b)\<close> with both columns indexed, empty.\<close>

definition demo_events :: Persistent where
  "demo_events =
     \<lparr>data = \<lparr>data_bucket = [], data_sequence = 0, data_maUn = demo_maUn ''a'' ''b''\<rparr>,
      indexes = [''a'' \<mapsto> [], ''b'' \<mapsto> []],
      reverseIdx = [],
      indexesMeta = [(''a'', [''a'']), (''b'', [''b''])],
      uniquesMeta = [],
      columns = [''a'', ''b''],
      relation = ''events'',
      allIndexes = [''a'', ''b'']\<rparr>"

text \<open>The same relation after the rows \<open>(a = 1, b = 2)\<close> and \<open>(a = 3, b = 2)\<close> were inserted.\<close>

definition demo_events2 :: Persistent where
  "demo_events2 =
     \<lparr>data = \<lparr>data_bucket = [([1], [1, 2]), ([2], [3, 2])], data_sequence = 2,
              data_maUn = demo_maUn ''a'' ''b''\<rparr>,
      indexes = [''a'' \<mapsto> [(([1], [1]), []), (([3], [2]), [])],
                 ''b'' \<mapsto> [(([2], [1]), []), (([2], [2]), [])]],
      reverseIdx = [([1], [(''a'', ([1], [1])), (''b'', ([2], [1]))]),
                    ([2], [(''a'', ([3], [2])), (''b'', ([2], [2]))])],
      indexesMeta = [(''a'', [''a'']), (''b'', [''b''])],
      uniquesMeta = [],
      columns = [''a'', ''b''],
      relation = ''events'',
      allIndexes = [''a'', ''b'']\<rparr>"

section \<open>Reading iterators as lists\<close>

text \<open>The item \<open>dataStorage.get\<close> hands over for one entry of the primary bucket.\<close>

definition dataStorage_item :: "MarshalUnmarshaler \<Rightarrow> bytes \<times> bytes \<Rightarrow> error + entry" where
  "dataStorage_item mu kv =
     (case Unmarshal mu (snd kv) of
        Inl err \<Rightarrow> Inl err
      | Inr value \<Rightarrow> Inr \<lparr>entry_id = fst kv, entry_value = value\<rparr>)"

section \<open>The index scan, read declaratively\<close>

text \<open>
  What \<open>indexStorage.get\<close> does with one stored key: \<open>indexStorage_decoded\<close> is the
  pair of leading key bytes and row id when the key decodes to exactly two components
  of the expected types; \<open>indexStorage_stops\<close> says that the loop breaks at the key,
  \<open>indexStorage_yields\<close> gives the items handed over for it. \<open>indexStorage_ids\<close> lists the
  ids of all the keys of a bucket whose leading component the range contains;
  \<open>codec_ordered\<close> is what the scan needs of the external codec on a bucket: decoding is
  monotone, and the keys before the seek position have a leading component below
  \<open>startKey\<close>.
\<close>

definition indexStorage_decoded :: "orderedDecode \<Rightarrow> bytes \<Rightarrow> (bytes \<times> 64 word) option" where
  "indexStorage_decoded odec k =
     (case odec k of
        Inl err \<Rightarrow> None
      | Inr parts \<Rightarrow>
          if length parts \<noteq> 2 then None
          else
            (case indexStorage_valBytes (parts ! 0) of
               None \<Rightarrow> None
             | Some valBytes \<Rightarrow>
                 (case indexStorage_id (parts ! 1) of
                    None \<Rightarrow> None
                  | Some ident \<Rightarrow> Some (valBytes, ident))))"

definition indexStorage_stops :: "orderedDecode \<Rightarrow> keyRange \<Rightarrow> bytes \<times> bytes \<Rightarrow> bool" where
  "indexStorage_stops odec kr kv =
     (case indexStorage_decoded odec (fst kv) of
        None \<Rightarrow> False
      | Some (valBytes, ident) \<Rightarrow>
          \<not> keyRange_contains kr valBytes \<and> \<not> indexStorage_lessThanEnd kr valBytes)"

definition indexStorage_yields ::
  "orderedDecode \<Rightarrow> keyRange \<Rightarrow> bytes \<times> bytes \<Rightarrow> (error + 64 word) list" where
  "indexStorage_yields odec kr kv =
     (case odec (fst kv) of
        Inl err \<Rightarrow> [Inl err]
      | Inr parts \<Rightarrow>
          (case indexStorage_decoded odec (fst kv) of
             None \<Rightarrow> []
           | Some (valBytes, ident) \<Rightarrow>
               if keyRange_contains kr valBytes then [Inr ident] else []))"

definition indexStorage_start ::
  "orderedEncode \<Rightarrow> keyRange \<Rightarrow> (bytes, bytes) bucket \<Rightarrow> error + (bytes \<times> bytes) list" where
  "indexStorage_start oenc kr idxBk =
     (case startKey kr of
        Some sk \<Rightarrow>
          (case orderedMa_Marshal oenc (VList [VBytes sk]) of
             Inl err \<Rightarrow> Inl err
           | Inr seekPrefix \<Rightarrow> Inr (cursor_Seek seekPrefix idxBk))
      | None \<Rightarrow> Inr (cursor_First idxBk))"

definition indexStorage_hit :: "orderedDecode \<Rightarrow> keyRange \<Rightarrow> bytes \<times> bytes \<Rightarrow> 64 word list" where
  "indexStorage_hit odec kr kv =
     (case indexStorage_decoded odec (fst kv) of
        None \<Rightarrow> []
      | Some (valBytes, ident) \<Rightarrow> if keyRange_contains kr valBytes then [ident] else [])"

definition indexStorage_ids :: "orderedDecode \<Rightarrow> keyRange \<Rightarrow> (bytes \<times> bytes) list \<Rightarrow> 64 word list" where
  "indexStorage_ids odec kr c = concat (map (indexStorage_hit odec kr) c)"

definition yieldedValues :: "('e + 'a) list \<Rightarrow> 'a list" where
  "yieldedValues items = concat (map (\<lambda>item. case item of Inl err \<Rightarrow> [] | Inr x \<Rightarrow> [x]) items)"

definition codec_ordered ::
  "orderedEncode \<Rightarrow> orderedDecode \<Rightarrow> keyRange \<Rightarrow> (bytes, bytes) bucket \<Rightarrow> bool" where
  "codec_ordered oenc odec kr idxBk =
     ((\<forall>kv \<in> set idxBk. \<forall>kv' \<in> set idxBk. \<forall>p p'.
         indexStorage_decoded odec (fst kv) = Some p \<longrightarrow>
         indexStorage_decoded odec (fst kv') = Some p' \<longrightarrow>
         fst kv \<le> fst kv' \<longrightarrow> fst p \<le> fst p') \<and>
      (\<forall>sk. startKey kr = Some sk \<longrightarrow>
         (\<exists>seekPrefix. orderedMa_Marshal oenc (VList [VBytes sk]) = Inr seekPrefix \<and>
            (\<forall>kv \<in> set idxBk. \<forall>p.
               indexStorage_decoded odec (fst kv) = Some p \<longrightarrow>
               fst kv < seekPrefix \<longrightarrow> fst p < sk))))"

text \<open>
  The iterator of a call that may fail: a failed call hands over nothing. A stand-in
  for the external codec on index keys (key bytes without zero, then a zero byte, then
  one byte per integer), and an index bucket \<open>loc\<close> to scan.
\<close>

definition seqOf :: "error + ('a, 's) seq2 \<Rightarrow> ('a, 's) seq2" where
  "seqOf r = (case r of Inl err \<Rightarrow> (\<lambda>yield s. s) | Inr it \<Rightarrow> it)"

definition demo_ienc :: orderedEncode where
  "demo_ienc vals =
     (case vals of
        [VBytes b] \<Rightarrow> Some (b @ [0])
      | [VBytes b, VUint64 w] \<Rightarrow> Some (b @ [0, ucast w])
      | _ \<Rightarrow> None)"

definition demo_idec :: orderedDecode where
  "demo_idec k =
     (let b = takeWhile (\<lambda>x. x \<noteq> 0) k;
          r = drop 1 (dropWhile (\<lambda>x. x \<noteq> 0) k)
      in case r of
           [] \<Rightarrow> Inr [VBytes b]
         | [i] \<Rightarrow> Inr [VBytes b, VUint64 (ucast i)]
         | [i, j] \<Rightarrow> Inr [VBytes b, VUint64 (ucast i), VUint64 (ucast j)]
         | _ \<Rightarrow> Inl (ErrCodec k))"

definition demo_loc :: indexStorage where
  "demo_loc = [''loc'' \<mapsto> [([1, 2, 0, 7], []), ([1, 2, 0, 7, 5], []), ([1, 3, 0, 8], []),
                            ([2, 1, 0, 9], [])]]"

definition demo_locRange :: keyRange where
  "demo_locRange = \<lparr>startKey = Some [1, 2], endKey = Some [1, 3], includeStart = True, includeEnd = True, excludes = []\<rparr>"

definition demo_locBucket :: "(bytes, bytes) bucket" where
  "demo_locBucket = [([1, 2, 0, 7], []), ([1, 2, 0, 7, 5], []), ([1, 3, 0, 8], []), ([2, 1, 0, 9], [])]"

section \<open>The planner's scans, read declaratively\<close>

text \<open>
  \<open>pointRange\<close> is the range \<open>[id, id]\<close> with which \<open>iter\<close> fetches one row;
  \<open>iter_items\<close> gives the items \<open>iter\<close> hands over for one item of the DataStore
  (the residual filter); \<open>dataStorage_scanned\<close> and \<open>indexes_scanned\<close> are the entries a
  cursor loop visits and keeps; \<open>indexes_ids\<close> lists the row ids an index scan yields and
  \<open>iter_fetched\<close> the items \<open>iter\<close> hands over for one such id.
\<close>

definition pointRange :: "bytes \<Rightarrow> keyRange" where
  "pointRange idBytes =
     \<lparr>startKey = Some idBytes, endKey = Some idBytes, includeStart = True, includeEnd = True, excludes = []\<rparr>"

definition iter_items ::
  "orderedEncode \<Rightarrow> Persistent \<Rightarrow> (string \<times> keyRange) list \<Rightarrow> string \<Rightarrow> error + entry \<Rightarrow>
     (error + entry) list" where
  "iter_items oenc pr ranges skip item =
     (case item of
        Inl err \<Rightarrow> [Inl err]
      | Inr e \<Rightarrow>
          (case matchOps oenc pr (entry_value e) ranges skip of
             Inl err \<Rightarrow> [Inl err]
           | Inr matches \<Rightarrow> if matches then [Inr e] else []))"

definition indexes_scanned :: "keyRange \<Rightarrow> (compositeKey \<times> bytes) list \<Rightarrow> (compositeKey \<times> bytes) list" where
  "indexes_scanned kr c =
     filter (\<lambda>kv. keyRange_contains kr (fst (fst kv)))
       (takeWhile (\<lambda>kv. keyRange_contains kr (fst (fst kv)) \<or> indexStorage_lessThanEnd kr (fst (fst kv))) c)"

definition dataStorage_scanned :: "keyRange \<Rightarrow> (bytes \<times> bytes) list \<Rightarrow> (bytes \<times> bytes) list" where
  "dataStorage_scanned kr c =
     filter (\<lambda>kv. keyRange_contains kr (fst kv))
       (takeWhile (\<lambda>kv. dataStorage_lessThan kr (fst kv)) c)"


definition indexes_ids :: "indexStore \<Rightarrow> string \<Rightarrow> keyRange \<Rightarrow> bytes list" where
  "indexes_ids idx name kr =
     (case idx name of
        None \<Rightarrow> []
      | Some idxBk \<Rightarrow>
          map (\<lambda>kv. snd (fst kv))
            (indexes_scanned kr
               (case startKey kr of
                  Some sk \<Rightarrow> cursor_Seek (sk, []) idxBk
                | None \<Rightarrow> cursor_First idxBk)))"

definition iter_fetched ::
  "orderedEncode \<Rightarrow> Persistent \<Rightarrow> (string \<times> keyRange) list \<Rightarrow> string \<Rightarrow> bytes \<Rightarrow>
     (error + entry) list" where
  "iter_fetched oenc pr ranges skip idBytes =
     concat (map (iter_items oenc pr ranges skip)
               (toList (dataStorage_get (data pr) (pointRange idBytes))))"

section \<open>Unique indexes\<close>

text \<open>
  \<open>indexes_keys\<close> are the key prefixes (the encoded columns before the row id) stored in
  an index bucket. \<open>unique_hit\<close> says that the bucket of a unique index already holds
  an entry with the key prefix of a row; \<open>uniques_wf\<close> that every unique index can be
  probed for the row: its key parts can be encoded and its bucket exists, in key order.
  \<open>demo_users1\<close> is the relation \<open>users\<close> after the row \<open>(id = 1, email = 5)\<close> was
  inserted.
\<close>

definition indexes_keys :: "(compositeKey \<times> bytes) list \<Rightarrow> bytes set" where
  "indexes_keys idxBk = (\<lambda>kv. fst (fst kv)) ` set idxBk"

definition unique_hit :: "orderedEncode \<Rightarrow> indexStore \<Rightarrow> row \<Rightarrow> string \<times> string list \<Rightarrow> bool" where
  "unique_hit oenc idx obj u =
     (case oenc (keyPartsOf obj (snd u)) of
        None \<Rightarrow> False
      | Some key \<Rightarrow>
          (case idx (fst u) of None \<Rightarrow> False | Some idxBk \<Rightarrow> key \<in> indexes_keys idxBk))"

definition uniques_wf ::
  "orderedEncode \<Rightarrow> indexStore \<Rightarrow> row \<Rightarrow> (string \<times> string list) list \<Rightarrow> bool" where
  "uniques_wf oenc idx obj meta =
     (\<forall>u \<in> set meta.
        oenc (keyPartsOf obj (snd u)) \<noteq> None \<and>
        (\<exists>idxBk. idx (fst u) = Some idxBk \<and> sorted (map fst idxBk)))"

definition demo_users1 :: Persistent where
  "demo_users1 =
     \<lparr>data = \<lparr>data_bucket = [([1], [1, 5])], data_sequence = 1,
              data_maUn = demo_maUn ''id'' ''email''\<rparr>,
      indexes = [''email'' \<mapsto> [(([5], [1]), [])]],
      reverseIdx = [([1], [(''email'', ([5], [1]))])],
      indexesMeta = [],
      uniquesMeta = [(''email'', [''email''])],
      columns = [''id'', ''email''],
      relation = ''users'',
      allIndexes = [''email'']\<rparr>"

section \<open>The invariant of the unique indexes\<close>

text \<open>
  \<open>prefixCount key b\<close> is the number of entries of the index bucket \<open>b\<close> whose key prefix
  is \<open>key\<close>. \<open>unique_ok\<close> is the invariant: the bucket of every unique index is in key
  order and holds at most one entry per key prefix. \<open>schema_ok\<close> says that the name of a
  unique index stands for one list of columns in both metadata maps. \<open>shrinks\<close> relates
  an index store to one from which entries were only removed. \<open>run\<close> applies a sequence
  of \<open>Insert\<close> and \<open>Delete\<close> calls, whatever errors they return; \<open>Delete_inv\<close> is the
  invariant of the loop of \<open>Delete\<close>.
\<close>

definition prefixCount :: "bytes \<Rightarrow> (compositeKey \<times> bytes) list \<Rightarrow> nat" where
  "prefixCount key idxBk = length (filter (\<lambda>kv. fst (fst kv) = key) idxBk)"

definition unique_ok :: "Persistent \<Rightarrow> bool" where
  "unique_ok pr =
     (\<forall>u \<in> set (uniquesMeta pr). \<forall>idxBk. indexes pr (fst u) = Some idxBk \<longrightarrow>
        sorted (map fst idxBk) \<and> (\<forall>key. prefixCount key idxBk \<le> 1))"

definition schema_ok :: "Persistent \<Rightarrow> bool" where
  "schema_ok pr =
     (\<forall>u \<in> set (uniquesMeta pr). \<forall>cols.
        (fst u, cols) \<in> set (indexesMeta pr) \<or> (fst u, cols) \<in> set (uniquesMeta pr) \<longrightarrow>
        cols = snd u)"

definition shrinks :: "indexStore \<Rightarrow> indexStore \<Rightarrow> bool" where
  "shrinks idx' idx =
     (\<forall>n idxBk'. idx' n = Some idxBk' \<longrightarrow>
        (\<exists>idxBk. idx n = Some idxBk \<and>
           (sorted (map fst idxBk) \<longrightarrow> sorted (map fst idxBk')) \<and>
           (\<forall>key. prefixCount key idxBk' \<le> prefixCount key idxBk)))"

datatype operation = DoInsert row | DoDelete "Op list"

fun apply_operation :: "orderedEncode \<Rightarrow> distance \<Rightarrow> Persistent \<Rightarrow> operation \<Rightarrow> Persistent" where
  "apply_operation oenc dist pr (DoInsert obj) = snd (Insert oenc pr obj)"
| "apply_operation oenc dist pr (DoDelete ops) = snd (Delete oenc dist pr ops)"

definition run :: "orderedEncode \<Rightarrow> distance \<Rightarrow> Persistent \<Rightarrow> operation list \<Rightarrow> Persistent" where
  "run oenc dist pr opers = foldl (apply_operation oenc dist) pr opers"

definition Delete_inv :: "Persistent \<Rightarrow> Persistent \<times> error option \<Rightarrow> bool" where
  "Delete_inv pr0 st =
     (shrinks (indexes (fst st)) (indexes pr0) \<and> uniquesMeta (fst st) = uniquesMeta pr0 \<and>
      indexesMeta (fst st) = indexesMeta pr0 \<and> allIndexes (fst st) = allIndexes pr0 \<and>
      columns (fst st) = columns pr0)"

text \<open>Rows of \<open>users\<close>, and the relation after three inserts, the second one rejected.\<close>

definition demo_row1 :: row where
  "demo_row1 = [''id'' \<mapsto> VUint64 1, ''email'' \<mapsto> VUint64 5]"

definition demo_row2 :: row where
  "demo_row2 = [''id'' \<mapsto> VUint64 2, ''email'' \<mapsto> VUint64 5]"

definition demo_row3 :: row where
  "demo_row3 = [''id'' \<mapsto> VUint64 3, ''email'' \<mapsto> VUint64 6]"

definition demo_data2 :: dataStorage where
  "demo_data2 = \<lparr>data_bucket = [([1], [1, 5]), ([2], [2, 5])], data_sequence = 2,
                  data_maUn = demo_maUn ''id'' ''email''\<rparr>"

definition demo_users3 :: Persistent where
  "demo_users3 =
     \<lparr>data = \<lparr>data_bucket = [([1], [1, 5]), ([2], [2, 5]), ([3], [3, 6])], data_sequence = 3,
              data_maUn = demo_maUn ''id'' ''email''\<rparr>,
      indexes = [''email'' \<mapsto> [(([5], [1]), []), (([6], [3]), [])]],
      reverseIdx = [([1], [(''email'', ([5], [1]))]), ([3], [(''email'', ([6], [3]))])],
      indexesMeta = [],
      uniquesMeta = [(''email'', [''email''])],
      columns = [''id'', ''email''],
      relation = ''users'',
      allIndexes = [''email'']\<rparr>"

section \<open>The rows of \<open>Select\<close>\<close>


section \<open>\<open>Delete\<close> and the unique indexes\<close>

text \<open>
  \<open>records_name_unique\<close> says that every record of the ReverseIndexStore names an index
  that \<open>indexesMeta\<close> does not list, as the records \<open>Insert\<close> writes in a relation with
  a unique index do. \<open>Delete_kept pr pr'\<close> says that \<open>pr'\<close> has the DataStore, the
  ReverseIndexStore and the index metadata of \<open>pr\<close>.
\<close>

definition records_name_unique :: "Persistent \<Rightarrow> bool" where
  "records_name_unique pr =
     list_all (\<lambda>kv. list_ex (\<lambda>nk. map_of (indexesMeta pr) (fst nk) = None) (snd kv))
       (reverseIdx pr)"

definition Delete_kept :: "Persistent \<Rightarrow> Persistent \<Rightarrow> bool" where
  "Delete_kept pr pr' =
     (data pr' = data pr \<and> reverseIdx pr' = reverseIdx pr \<and> indexesMeta pr' = indexesMeta pr)"

section \<open>The index scan and the full scan\<close>

text \<open>
  \<open>matchOps\<close> read declaratively. \<open>matchOps_cols\<close> is its lookup of a range name in the
  two metadata maps, \<open>matchOps_value\<close> the value it tests for a range name (the row's own
  field when the row has one, else the composite of the columns of the index of that
  name), \<open>matchOps_key\<close> the bytes of that value, and \<open>matchOps_passes\<close> the test of one
  range; \<open>composite_ok\<close> is the invariant of its first loop. \<open>rowsOf\<close> are the rows among
  the items an iterator of \<open>Select\<close> hands over, and \<open>fullScan_rows\<close> the rows of a full
  scan of the DataStore filtered by \<open>matchOps\<close>. \<open>index_consistent\<close> says that the
  bucket of an index is in key order and holds, for every stored row that decodes, an
  entry with the row's id under the key \<open>matchOps\<close> computes for the row, and no entry
  with that id under another key.
\<close>

definition matchOps_cols :: "Persistent \<Rightarrow> string \<Rightarrow> string list option" where
  "matchOps_cols pr k =
     (case map_of (indexesMeta pr) k of Some cols \<Rightarrow> Some cols | None \<Rightarrow> map_of (uniquesMeta pr) k)"

definition matchOps_value :: "Persistent \<Rightarrow> row \<Rightarrow> string \<Rightarrow> val option" where
  "matchOps_value pr obj name =
     (case obj name of
        Some v \<Rightarrow> Some v
      | None \<Rightarrow>
          (case matchOps_cols pr name of
             None \<Rightarrow> None
           | Some cols \<Rightarrow>
               if list_all (\<lambda>col. obj col \<noteq> None) cols then Some (VList (keyPartsOf obj cols))
               else None))"

definition matchOps_key :: "orderedEncode \<Rightarrow> Persistent \<Rightarrow> row \<Rightarrow> string \<Rightarrow> bytes option" where
  "matchOps_key oenc pr obj name =
     (case matchOps_value pr obj name of
        None \<Rightarrow> None
      | Some v \<Rightarrow> (case orderedMa_Marshal oenc v of Inl err \<Rightarrow> None | Inr b \<Rightarrow> Some b))"

definition matchOps_passes ::
  "orderedEncode \<Rightarrow> Persistent \<Rightarrow> row \<Rightarrow> string \<Rightarrow> string \<times> keyRange \<Rightarrow> bool" where
  "matchOps_passes oenc pr obj skip nr =
     (fst nr = skip \<or>
      (case matchOps_key oenc pr obj (fst nr) of
         None \<Rightarrow> False
       | Some key \<Rightarrow> keyRange_contains (snd nr) key))"

definition composite_ok :: "Persistent \<Rightarrow> row \<Rightarrow> (string \<rightharpoonup> val) \<Rightarrow> bool" where
  "composite_ok pr obj cv =
     (\<forall>name v. cv name = Some v \<longrightarrow> obj name = None \<and> matchOps_value pr obj name = Some v)"

definition rowsOf :: "(error + row) list \<Rightarrow> row list" where
  "rowsOf items = concat (map (\<lambda>item. case item of Inl err \<Rightarrow> [] | Inr obj \<Rightarrow> [obj]) items)"



section \<open>Iterators as lists\<close>

text \<open>
  \<open>feed yield items s\<close> hands the items of a list to a callback until it returns
  \<open>false\<close>; \<open>iter_entries\<close> are the items \<open>iter\<close> hands over to a consumer that never
  stops. \<open>demo_events1\<close> is the relation \<open>events\<close> after the row \<open>(a = 1, b = 2)\<close> was
  inserted.
\<close>

fun feed :: "('a, 's) yield \<Rightarrow> 'a list \<Rightarrow> 's \<Rightarrow> bool \<times> 's" where
  "feed yield [] s = (True, s)"
| "feed yield (a # items) s =
     (case yield a s of (ok, s') \<Rightarrow> if ok then feed yield items s' else (False, s'))"

definition iter_entries ::
  "orderedEncode \<Rightarrow> distance \<Rightarrow> Persistent \<Rightarrow> Op list \<Rightarrow> (error + entry) list" where
  "iter_entries oenc dist pr ops = toList (seqOf (iter oenc dist pr ops))"

definition demo_events1 :: Persistent where
  "demo_events1 =
     \<lparr>data = \<lparr>data_bucket = [([1], [1, 2])], data_sequence = 1,
              data_maUn = demo_maUn ''a'' ''b''\<rparr>,
      indexes = [''a'' \<mapsto> [(([1], [1]), [])], ''b'' \<mapsto> [(([2], [1]), [])]],
      reverseIdx = [([1], [(''a'', ([1], [1])), (''b'', ([2], [1]))])],
      indexesMeta = [(''a'', [''a'']), (''b'', [''b''])],
      uniquesMeta = [],
      columns = [''a'', ''b''],
      relation = ''events'',
      allIndexes = [''a'', ''b'']\<rparr>"

section \<open>More example data\<close>

text \<open>The ranges of \<open>Eq("b", 2), Ge("a", 2)\<close> under the example codec.\<close>

definition demo_ranges2 :: "(string \<times> keyRange) list" where
  "demo_ranges2 =
     [(''b'', \<lparr>startKey = Some [2], endKey = Some [2], includeStart = True, includeEnd = True, excludes = []\<rparr>),
      (''a'', \<lparr>startKey = Some [2], endKey = None, includeStart = True, includeEnd = True, excludes = []\<rparr>)]"

section \<open>Relations built by \<open>Insert\<close>\<close>







section \<open>A value codec that changes dynamic types\<close>





section \<open>The range of \<open>Ne\<close>\<close>


section \<open>Running the definitions\<close>

lemmas demo_defs = demo_oenc_def demo_maUn_def demo_dist_def demo_events_def demo_users_def
  demo_events2_def

lemmas model_defs = Insert_def dataStorage_insert_def orderedMa_Marshal_def toRanges_def
  Eq_def Ne_def Gt_def Ge_def Lt_def Le_def
  opRange_def OpEq_def OpNe_def OpGt_def OpGe_def OpLt_def OpLe_def intersectRange_def fullRange_def
  indexes_get_def indexes_insert_def indexes_delete_def
  cursor_Seek_def cursor_First_def cursor_Next_def
  keyRange_contains_def indexStorage_lessThanEnd_def dataStorage_lessThan_def bytes_Compare_def
  keyPartsOf_def reverseIdx_insert_def reverseIdx_get_def reverseIdx_delete_def
  bucket_Get_def bucket_Delete_def dataStorage_get_def dataStorage_delete_def
  iter_def iter_fullScan_def iter_indexScan_def iter_match_def matchOps_def
  selectIndexes_def shortestRange_def slices_MinFunc_def distanceOf_def
  Select_def Delete_def Delete_body_def

lemma demo_events2_by_Insert:
  "\<exists>s1. Insert demo_oenc demo_events [''a'' \<mapsto> VUint64 1, ''b'' \<mapsto> VUint64 2] = (None, s1) \<and>
     Insert demo_oenc s1 [''a'' \<mapsto> VUint64 3, ''b'' \<mapsto> VUint64 2] = (None, demo_events2)"
  by (simp add: demo_defs model_defs Let_def fun_upd_twist)

section \<open>Insert validates the row before it touches storage\<close>

text \<open>
  C6. A row whose field count differs from the relation's column count is rejected with
  \<open>ErrObjectFieldCountMismatch\<close>; a row with the right count that lacks a declared
  column is rejected with \<open>ErrObjectMissingField\<close> of the first such column. In both
  cases the relation is returned as it was: no entry of the DataStore, the IndexStore
  or the ReverseIndexStore is written, and the row id sequence is not advanced.
\<close>

theorem Insert_rejects_before_storage:
  "(card (dom obj) \<noteq> length (columns pr) \<longrightarrow>
      Insert oenc pr obj = (Some ErrObjectFieldCountMismatch, pr)) \<and>
   (card (dom obj) = length (columns pr) \<and> find (\<lambda>col. obj col = None) (columns pr) = Some col \<longrightarrow>
      col \<in> set (columns pr) \<and> obj col = None \<and>
      Insert oenc pr obj = (Some (ErrObjectMissingField col), pr))"
proof (intro conjI impI)
  assume "card (dom obj) \<noteq> length (columns pr)"
  then show "Insert oenc pr obj = (Some ErrObjectFieldCountMismatch, pr)"
    by (simp add: Insert_def)
next
  assume h: "card (dom obj) = length (columns pr) \<and>
    find (\<lambda>col. obj col = None) (columns pr) = Some col"
  then show "col \<in> set (columns pr)"
    by (auto simp: find_Some_iff)
  from h show "obj col = None"
    by (auto simp: find_Some_iff)
  from h show "Insert oenc pr obj = (Some (ErrObjectMissingField col), pr)"
    by (simp add: Insert_def)
qed

theorem Insert_rejects_before_storage_witness:
  "Insert demo_oenc demo_users [''id'' \<mapsto> VUint64 1] = (Some ErrObjectFieldCountMismatch, demo_users) \<and>
   Insert demo_oenc demo_users [''id'' \<mapsto> VUint64 1, ''mail'' \<mapsto> VUint64 7] =
     (Some (ErrObjectMissingField ''email''), demo_users)"
proof -
  have c1: "card (dom [''id'' \<mapsto> VUint64 1]) \<noteq> length (columns demo_users)"
    by (simp add: demo_users_def)
  have c2: "card (dom [''id'' \<mapsto> VUint64 1, ''mail'' \<mapsto> VUint64 7]) = length (columns demo_users) \<and>
    find (\<lambda>col. [''id'' \<mapsto> VUint64 1, ''mail'' \<mapsto> VUint64 7] col = None) (columns demo_users) =
      Some ''email''"
    by (simp add: demo_users_def)
  from c1 Insert_rejects_before_storage
    [where obj = "[''id'' \<mapsto> VUint64 1]" and pr = demo_users and oenc = demo_oenc]
  have r1: "Insert demo_oenc demo_users [''id'' \<mapsto> VUint64 1] =
      (Some ErrObjectFieldCountMismatch, demo_users)"
    by blast
  from c2 Insert_rejects_before_storage
    [where obj = "[''id'' \<mapsto> VUint64 1, ''mail'' \<mapsto> VUint64 7]" and pr = demo_users
       and col = "''email''" and oenc = demo_oenc]
  have r2: "Insert demo_oenc demo_users [''id'' \<mapsto> VUint64 1, ''mail'' \<mapsto> VUint64 7] =
      (Some (ErrObjectMissingField ''email''), demo_users)"
    by blast
  from r1 r2 show ?thesis by simp
qed

section \<open>Iterators stop when the consumer says so\<close>

text \<open>
  A rule for every loop over a cursor: if each call of the callback from a state
  satisfying \<open>P\<close> leads to \<open>P\<close> when it returns \<open>true\<close> and to \<open>Q\<close> when it returns
  \<open>false\<close>, the loop started in \<open>P\<close> ends in \<open>P\<close> or in \<open>Q\<close>: after the callback has
  returned \<open>false\<close> it is not called again.
\<close>

lemma dataStorage_get_loop_rule:
  assumes step: "\<And>a s. P s \<Longrightarrow> (case yield a s of (ok, s') \<Rightarrow> if ok then P s' else Q s')"
    and init: "P s"
  shows "P (dataStorage_get_loop mu kr c yield s) \<or> Q (dataStorage_get_loop mu kr c yield s)"
  using init
proof (induction c arbitrary: s)
  case Nil
  then show ?case by simp
next
  case (Cons kv c)
  obtain k v where kv: "kv = (k, v)" by (cases kv)
  show ?case
  proof (cases "Unmarshal mu v")
    case (Inl err)
    from step [OF Cons.prems, of "Inl err"] Cons.IH Cons.prems show ?thesis
      by (auto simp: kv Inl split: prod.splits if_splits)
  next
    case (Inr val)
    from step [OF Cons.prems, of "Inr \<lparr>entry_id = k, entry_value = val\<rparr>"] Cons.IH Cons.prems
    show ?thesis
      by (auto simp: kv Inr split: prod.splits if_splits)
  qed
qed

lemma dataStorage_get_rule:
  assumes step: "\<And>a s. P s \<Longrightarrow> (case yield a s of (ok, s') \<Rightarrow> if ok then P s' else Q s')"
    and init: "P s"
  shows "P (dataStorage_get d kr yield s) \<or> Q (dataStorage_get d kr yield s)"
  unfolding dataStorage_get_def Let_def
  by (rule dataStorage_get_loop_rule [OF step init])

lemma indexes_get_loop_rule:
  assumes step: "\<And>a s. P s \<Longrightarrow> (case yield a s of (ok, s') \<Rightarrow> if ok then P s' else Q s')"
    and init: "P s"
  shows "P (indexes_get_loop kr c yield s) \<or> Q (indexes_get_loop kr c yield s)"
  using init
proof (induction c arbitrary: s)
  case Nil
  then show ?case by simp
next
  case (Cons kv c)
  obtain key ident v where kv: "kv = ((key, ident), v)" by (cases kv) auto
  from step [OF Cons.prems, of ident] Cons.IH Cons.prems show ?case
    by (auto simp: kv split: prod.splits if_splits)
qed

lemma indexes_get_rule:
  assumes get: "indexes_get idx name kr = Inr idxes"
    and step: "\<And>a s. P s \<Longrightarrow> (case yield a s of (ok, s') \<Rightarrow> if ok then P s' else Q s')"
    and init: "P s"
  shows "P (idxes yield s) \<or> Q (idxes yield s)"
proof -
  from get obtain idxBk where
    it: "idxes = (\<lambda>yield s. case startKey kr of
           Some sk \<Rightarrow> indexes_get_loop kr (cursor_Seek (sk, []) idxBk) yield s
         | None \<Rightarrow> indexes_get_loop kr (cursor_First idxBk) yield s)"
    by (auto simp: indexes_get_def split: option.splits)
  show ?thesis
    unfolding it
    by (cases "startKey kr") (simp_all add: indexes_get_loop_rule [OF step init])
qed

lemma iter_match_step:
  assumes step: "\<And>a s. P s \<Longrightarrow> (case yield a s of (ok, s') \<Rightarrow> if ok then P s' else Q s')"
    and init: "P s"
  shows "case iter_match oenc pr ranges skip yield item s of (ok, s') \<Rightarrow> if ok then P s' else Q s'"
proof (cases item)
  case (Inl err)
  with step [OF init, of "Inl err"] show ?thesis by (simp add: iter_match_def)
next
  case (Inr e)
  show ?thesis
  proof (cases "matchOps oenc pr (entry_value e) ranges skip")
    case (Inl err)
    with step [OF init, of "Inl err"] Inr show ?thesis by (simp add: iter_match_def)
  next
    case m: (Inr matches)
    with step [OF init, of "Inr e"] Inr init show ?thesis by (simp add: iter_match_def)
  qed
qed

lemma iter_fullScan_rule:
  assumes step: "\<And>a s. P s \<Longrightarrow> (case yield a s of (ok, s') \<Rightarrow> if ok then P s' else Q s')"
    and init: "P s"
  shows "P (iter_fullScan oenc pr ranges yield s) \<or> Q (iter_fullScan oenc pr ranges yield s)"
  unfolding iter_fullScan_def
  by (rule dataStorage_get_rule [OF iter_match_step [OF step] init])

lemma iter_indexScan_rule:
  assumes get: "indexes_get idx name kr = Inr idxes"
    and step: "\<And>a s. P s \<Longrightarrow> (case yield a s of (ok, s') \<Rightarrow> if ok then P s' else Q s')"
    and init: "P s"
  shows "P (iter_indexScan oenc pr ranges skip idxes yield s) \<or>
         Q (iter_indexScan oenc pr ranges skip idxes yield s)"
  unfolding iter_indexScan_def
proof (rule indexes_get_rule [where P = P and Q = Q, OF get _ init])
  fix idBytes s0
  assume p0: "P s0"
  let ?inner = "\<lambda>item (s1, returned).
      case iter_match oenc pr ranges skip yield item s1 of (ok, s2) \<Rightarrow> (ok, (s2, \<not> ok))"
  let ?kr = "\<lparr>startKey = Some idBytes, endKey = Some idBytes, includeStart = True, includeEnd = True, excludes = []\<rparr>"
  define P' where "P' = (\<lambda>st :: 'a \<times> bool. P (fst st) \<and> \<not> snd st)"
  define Q' where "Q' = (\<lambda>st :: 'a \<times> bool. Q (fst st) \<and> snd st)"
  have inner: "\<And>a st. P' st \<Longrightarrow> (case ?inner a st of (ok, st') \<Rightarrow> if ok then P' st' else Q' st')"
  proof -
    fix a st
    assume "P' st"
    then obtain s1 where st: "st = (s1, False)" and p1: "P s1"
      by (cases st) (auto simp: P'_def)
    from iter_match_step [where yield = yield and oenc = oenc and pr = pr and ranges = ranges
        and skip = skip and item = a and P = P and Q = Q, OF step p1]
    show "case ?inner a st of (ok, st') \<Rightarrow> if ok then P' st' else Q' st'"
      by (auto simp: st P'_def Q'_def split: prod.splits)
  qed
  have start: "P' (s0, False)"
    by (simp add: P'_def p0)
  have "P' (dataStorage_get (data pr) ?kr ?inner (s0, False)) \<or>
        Q' (dataStorage_get (data pr) ?kr ?inner (s0, False))"
    by (rule dataStorage_get_rule [where P = P' and Q = Q', OF inner start])
  then show "case (case dataStorage_get (data pr) ?kr ?inner (s0, False) of
                (s3, returned) \<Rightarrow> (\<not> returned, s3)) of
             (ok, s') \<Rightarrow> if ok then P s' else Q s'"
    by (auto simp: P'_def Q'_def split: prod.splits)
qed

lemma iter_rule:
  assumes it: "iter oenc dist pr ops = Inr it"
    and step: "\<And>a s. P s \<Longrightarrow> (case yield a s of (ok, s') \<Rightarrow> if ok then P s' else Q s')"
    and init: "P s"
  shows "P (it yield s) \<or> Q (it yield s)"
proof -
  from it obtain ranges where r: "toRanges oenc ops = Inr ranges"
    by (auto simp: iter_def split: sum.splits)
  show ?thesis
  proof (cases "length (selectIndexes pr ranges) = 0")
    case True
    with it r have "it = iter_fullScan oenc pr ranges" by (simp add: iter_def)
    then show ?thesis using iter_fullScan_rule [OF step init] by simp
  next
    case False
    with it r obtain name kr idxes where
      g: "indexes_get (indexes pr) name kr = Inr idxes" and
      i: "it = iter_indexScan oenc pr ranges name idxes"
      by (auto simp: iter_def Let_def split: option.splits sum.splits)
    show ?thesis unfolding i by (rule iter_indexScan_rule [OF g step init])
  qed
qed

lemma Select_callback_step:
  assumes step: "\<And>a s. P s \<Longrightarrow> (case yield a s of (ok, s') \<Rightarrow> if ok then P s' else Q s')"
    and init: "P s"
  shows "case (case item of Inl err \<Rightarrow> yield (Inl err) s | Inr e \<Rightarrow> yield (Inr (entry_value e)) s) of
        (ok, s') \<Rightarrow> if ok then P s' else Q s'"
proof (cases item)
  case (Inl err)
  with step [OF init, of "Inl err"] show ?thesis by simp
next
  case (Inr e)
  with step [OF init, of "Inr (entry_value e)"] show ?thesis by simp
qed

lemma Select_rule:
  assumes it: "Select oenc dist pr ops = Inr it"
    and step: "\<And>a s. P s \<Longrightarrow> (case yield a s of (ok, s') \<Rightarrow> if ok then P s' else Q s')"
    and init: "P s"
  shows "P (it yield s) \<or> Q (it yield s)"
proof -
  from it obtain iterEntries where
    ie: "iter oenc dist pr ops = Inr iterEntries" and
    i: "it = (\<lambda>yield s. iterEntries (\<lambda>item s0. case item of Inl err \<Rightarrow> yield (Inl err) s0
                  | Inr e \<Rightarrow> yield (Inr (entry_value e)) s0) s)"
    by (auto simp: Select_def split: sum.splits)
  have st: "\<And>a s. P s \<Longrightarrow>
     (case (case a of Inl err \<Rightarrow> yield (Inl err) s | Inr e \<Rightarrow> yield (Inr (entry_value e)) s) of
        (ok, s') \<Rightarrow> if ok then P s' else Q s')"
    by (rule Select_callback_step [OF step])
  show ?thesis unfolding i by (rule iter_rule [where P = P and Q = Q, OF ie st init])
qed

lemma monitored_step:
  "running m \<Longrightarrow>
   (case monitored yield a m of (ok, m') \<Rightarrow> if ok then running m' else clean m')"
  by (auto simp: monitored_def running_def clean_def split: prod.splits)

lemma running_or_clean: "running (s, False, False)" "running m \<or> clean m \<Longrightarrow> \<not> snd (snd m)"
  by (auto simp: running_def clean_def)

lemma dataStorage_get_stops: "\<not> calledAfterStop (dataStorage_get d kr) yield s"
  unfolding calledAfterStop_def
  by (rule running_or_clean(2),
      rule dataStorage_get_rule [where P = running and Q = clean, OF monitored_step running_or_clean(1)])

lemma iter_stops:
  assumes "iter oenc dist pr ops = Inr it"
  shows "\<not> calledAfterStop it yield s"
  unfolding calledAfterStop_def
  by (rule running_or_clean(2),
      rule iter_rule [where P = running and Q = clean, OF assms monitored_step running_or_clean(1)])

lemma Select_stops:
  assumes "Select oenc dist pr ops = Inr it"
  shows "\<not> calledAfterStop it yield s"
  unfolding calledAfterStop_def
  by (rule running_or_clean(2),
      rule Select_rule [where P = running and Q = clean, OF assms monitored_step running_or_clean(1)])

text \<open>
  C10. Once the consumer's callback has returned \<open>false\<close>, the iterators of
  \<open>dataStorage.get\<close>, \<open>Persistent.iter\<close> and \<open>Persistent.Select\<close> do not call it again:
  whatever the callback and its state, the observed run never records a call after the
  stop.
\<close>

theorem iterators_stop_when_told:
  "\<not> calledAfterStop (dataStorage_get d kr) yield s \<and>
   (\<forall>it. iter oenc dist pr ops = Inr it \<longrightarrow> \<not> calledAfterStop it yield s) \<and>
   (\<forall>it. Select oenc dist pr ops = Inr it \<longrightarrow> \<not> calledAfterStop it yieldRow t)"
  by (simp add: dataStorage_get_stops iter_stops Select_stops)

theorem iterators_stop_when_told_witness:
  "(\<exists>it. iter demo_oenc demo_dist demo_events2 [Eq ''b'' (VUint64 2)] = Inr it \<and>
         \<not> calledAfterStop it (\<lambda>item n. (False, Suc n)) (0::nat)) \<and>
   (\<exists>it. Select demo_oenc demo_dist demo_events2 [Eq ''b'' (VUint64 2)] = Inr it \<and>
         \<not> calledAfterStop it (\<lambda>item n. (False, Suc n)) (0::nat))"
proof -
  have "\<exists>it :: (error + entry, nat \<times> bool \<times> bool) seq2.
      iter demo_oenc demo_dist demo_events2 [Eq ''b'' (VUint64 2)] = Inr it"
    by (simp add: demo_defs model_defs Let_def)
  then obtain ie :: "(error + entry, nat \<times> bool \<times> bool) seq2" where
    ie: "iter demo_oenc demo_dist demo_events2 [Eq ''b'' (VUint64 2)] = Inr ie" ..
  have "\<exists>it :: (error + row, nat \<times> bool \<times> bool) seq2.
      Select demo_oenc demo_dist demo_events2 [Eq ''b'' (VUint64 2)] = Inr it"
    by (simp add: demo_defs model_defs Let_def)
  then obtain se :: "(error + row, nat \<times> bool \<times> bool) seq2" where
    se: "Select demo_oenc demo_dist demo_events2 [Eq ''b'' (VUint64 2)] = Inr se" ..
  note stops = iterators_stop_when_told
    [where d = "data demo_events2" and kr = fullRange
       and oenc = demo_oenc and dist = demo_dist and pr = demo_events2
       and ops = "[Eq ''b'' (VUint64 2)]" and yield = "\<lambda>item n. (False, Suc n)" and s = "0::nat"
       and yieldRow = "\<lambda>item n. (False, Suc n)" and t = "0::nat"]
  from stops ie have 1: "\<not> calledAfterStop ie (\<lambda>item n. (False, Suc n)) (0::nat)"
    by simp
  from stops se have 2: "\<not> calledAfterStop se (\<lambda>item n. (False, Suc n)) (0::nat)"
    by simp
  from ie se 1 2 show ?thesis by simp
qed

section \<open>The scan of the primary bucket\<close>

text \<open>
  With an inclusive start, and on a bucket in key order, \<open>dataStorage.get\<close> hands over
  exactly the entries whose keys the range contains, in the order of the bucket.
\<close>

lemma dataStorage_get_loop_collect:
  "dataStorage_get_loop mu kr c (\<lambda>a s. (True, s @ [a])) acc =
     acc @ map (dataStorage_item mu)
             (filter (\<lambda>kv. keyRange_contains kr (fst kv))
                (takeWhile (\<lambda>kv. dataStorage_lessThan kr (fst kv)) c))"
proof (induction c arbitrary: acc)
  case Nil
  then show ?case by simp
next
  case (Cons kv c)
  obtain k v where kv: "kv = (k, v)" by (cases kv)
  show ?case
    by (cases "Unmarshal mu v") (simp_all add: kv Cons.IH dataStorage_item_def)
qed

lemma contains_lessThan: "keyRange_contains kr k \<Longrightarrow> dataStorage_lessThan kr k"
  by (auto simp: keyRange_contains_def dataStorage_lessThan_def bytes_Compare_def Let_def
      split: option.splits)

lemma lessThan_mono: "dataStorage_lessThan kr k' \<Longrightarrow> k \<le> k' \<Longrightarrow> dataStorage_lessThan kr k"
  by (auto simp: dataStorage_lessThan_def bytes_Compare_def Let_def split: option.splits if_splits)

lemma filter_takeWhile_sorted:
  assumes "sorted (map fst c)"
  shows "filter (\<lambda>kv. keyRange_contains kr (fst kv))
           (takeWhile (\<lambda>kv. dataStorage_lessThan kr (fst kv)) c) =
         filter (\<lambda>kv. keyRange_contains kr (fst kv)) c"
  using assms
proof (induction c)
  case Nil
  then show ?case by simp
next
  case (Cons kv c)
  show ?case
  proof (cases "dataStorage_lessThan kr (fst kv)")
    case True
    with Cons show ?thesis by simp
  next
    case False
    have "\<And>x. x \<in> set c \<Longrightarrow> \<not> keyRange_contains kr (fst x)"
    proof
      fix x assume x: "x \<in> set c" and c: "keyRange_contains kr (fst x)"
      from Cons.prems x have "fst kv \<le> fst x" by auto
      with contains_lessThan [OF c] lessThan_mono False show False by blast
    qed
    moreover from False contains_lessThan have "\<not> keyRange_contains kr (fst kv)" by blast
    ultimately show ?thesis using False by (simp add: filter_empty_conv)
  qed
qed

lemma filter_Seek:
  "filter (\<lambda>kv. keyRange_contains kr (fst kv)) (cursor_Seek sk c) =
   filter (\<lambda>kv. keyRange_contains kr (fst kv)) c" if "startKey kr = Some sk"
proof (induction c)
  case Nil
  then show ?case by (simp add: cursor_Seek_def)
next
  case (Cons kv c)
  then show ?case using that
    by (auto simp: cursor_Seek_def keyRange_contains_def)
qed

lemma sorted_Seek: "sorted (map fst c) \<Longrightarrow> sorted (map fst (cursor_Seek sk c))"
  unfolding cursor_Seek_def by (induction c) auto

lemma toList_alt: "toList it = it (\<lambda>a s. (True, s @ [a])) []"
  by (simp add: toList_def collect_def [abs_def])

lemma dataStorage_get_inclusive:
  assumes "bucket_ok (data_bucket d)" and "includeStart kr"
  shows "toList (dataStorage_get d kr) =
     map (dataStorage_item (data_maUn d))
       (filter (\<lambda>kv. keyRange_contains kr (fst kv)) (data_bucket d))"
proof (cases "startKey kr")
  case None
  with assms show ?thesis
    by (simp add: toList_alt dataStorage_get_def dataStorage_get_loop_collect
        filter_takeWhile_sorted bucket_ok_def cursor_First_def)
next
  case (Some sk)
  with assms show ?thesis
    by (simp add: toList_alt dataStorage_get_def dataStorage_get_loop_collect
        filter_takeWhile_sorted sorted_Seek bucket_ok_def filter_Seek)
qed

lemma sorted_cursor_Next: "sorted (map fst c) \<Longrightarrow> sorted (map fst (cursor_Next c))"
  by (simp add: cursor_Next_def drop_map [symmetric] sorted_wrt_drop)

text \<open>
  C9. With an exclusive start, \<open>dataStorage.get\<close> steps the cursor once after \<open>Seek\<close>
  (or \<open>First\<close>) whatever key the cursor stands on: on a bucket in key order it hands over
  the entries the range contains among those after the first entry at or beyond
  \<open>startKey\<close>. That entry is left out also when its key is not \<open>startKey\<close> and the range
  contains it: in the bucket with the keys \<open>[2]\<close> and \<open>[5]\<close>, the range \<open>([3], +\<infinity>)\<close>
  contains the key \<open>[5]\<close>, and the scan yields nothing.
\<close>

theorem dataStorage_get_exclusive_start_skips:
  assumes ok: "bucket_ok (data_bucket d)" and excl: "\<not> includeStart kr"
  shows "toList (dataStorage_get d kr) =
     map (dataStorage_item (data_maUn d))
       (filter (\<lambda>kv. keyRange_contains kr (fst kv))
          (cursor_Next (case startKey kr of
                          Some sk \<Rightarrow> cursor_Seek sk (data_bucket d)
                        | None \<Rightarrow> cursor_First (data_bucket d))))"
proof -
  let ?c0 = "case startKey kr of
      Some sk \<Rightarrow> cursor_Seek sk (data_bucket d)
    | None \<Rightarrow> cursor_First (data_bucket d)"
  from ok have "sorted (map fst ?c0)"
    by (simp add: bucket_ok_def cursor_First_def sorted_Seek split: option.splits)
  then have srt: "sorted (map fst (cursor_Next ?c0))"
    by (rule sorted_cursor_Next)
  from excl have "toList (dataStorage_get d kr) =
      dataStorage_get_loop (data_maUn d) kr (cursor_Next ?c0) (\<lambda>a s. (True, s @ [a])) []"
    by (simp add: toList_alt dataStorage_get_def)
  also have "\<dots> = map (dataStorage_item (data_maUn d))
       (filter (\<lambda>kv. keyRange_contains kr (fst kv)) (cursor_Next ?c0))"
    by (simp add: dataStorage_get_loop_collect filter_takeWhile_sorted [OF srt])
  finally show ?thesis .
qed

theorem dataStorage_get_exclusive_start_skips_witness:
  "bucket_ok [([2], [1, 2]), ([5 :: byte], [3, 2 :: byte])] \<and>
   keyRange_contains \<lparr>startKey = Some [3], endKey = None, includeStart = False, includeEnd = True, excludes = []\<rparr> [5] \<and>
   toList (dataStorage_get
      \<lparr>data_bucket = [([2], [1, 2]), ([5], [3, 2])], data_sequence = 2,
       data_maUn = demo_maUn ''a'' ''b''\<rparr>
      \<lparr>startKey = Some [3], endKey = None, includeStart = False, includeEnd = True, excludes = []\<rparr>) = []"
proof -
  let ?d = "\<lparr>data_bucket = [([2], [1, 2]), ([5], [3, 2])], data_sequence = 2,
       data_maUn = demo_maUn ''a'' ''b''\<rparr>"
  let ?kr = "\<lparr>startKey = Some [3], endKey = None, includeStart = False, includeEnd = True, excludes = []\<rparr>"
  have b: "bucket_ok (data_bucket ?d)"
    by (simp add: bucket_ok_def)
  have e: "\<not> includeStart ?kr"
    by simp
  have c: "keyRange_contains ?kr [5]"
    by (simp add: keyRange_contains_def)
  from dataStorage_get_exclusive_start_skips [OF b e]
  have "toList (dataStorage_get ?d ?kr) = []"
    by (simp add: cursor_Seek_def cursor_Next_def)
  with b c show ?thesis by simp
qed

section \<open>The index scan\<close>

lemma indexStorage_get_loop_collect:
  "indexStorage_get_loop odec kr c (\<lambda>a s. (True, s @ [a])) acc =
     acc @ concat (map (indexStorage_yields odec kr)
                    (takeWhile (\<lambda>kv. \<not> indexStorage_stops odec kr kv) c))"
proof (induction c arbitrary: acc)
  case Nil
  then show ?case by simp
next
  case (Cons kv c)
  obtain k v where kv: "kv = (k, v)" by (cases kv)
  show ?case
  proof (cases "odec k")
    case (Inl err)
    then show ?thesis
      by (simp add: kv Cons.IH indexStorage_yields_def indexStorage_stops_def
          indexStorage_decoded_def)
  next
    case (Inr parts)
    then show ?thesis
      by (simp add: kv Cons.IH indexStorage_yields_def indexStorage_stops_def
          indexStorage_decoded_def split: option.splits)
  qed
qed

lemma indexStorage_get_toList:
  assumes "indexStorage_get oenc odec idx name kr = Inr it"
  shows "\<exists>idxBk. idx name = Some idxBk \<and>
     toList it =
       (case indexStorage_start oenc kr idxBk of
          Inl err \<Rightarrow> [Inl err]
        | Inr c \<Rightarrow>
            concat (map (indexStorage_yields odec kr)
                     (takeWhile (\<lambda>kv. \<not> indexStorage_stops odec kr kv) c)))"
proof -
  from assms obtain idxBk where bk: "idx name = Some idxBk"
    by (auto simp: indexStorage_get_def split: option.splits)
  with assms have it: "it = (\<lambda>yield s.
            (case startKey kr of
               Some sk \<Rightarrow>
                 (case orderedMa_Marshal oenc (VList [VBytes sk]) of
                    Inl err \<Rightarrow> snd (yield (Inl err) s)
                  | Inr seekPrefix \<Rightarrow>
                      indexStorage_get_loop odec kr (cursor_Seek seekPrefix idxBk) yield s)
             | None \<Rightarrow> indexStorage_get_loop odec kr (cursor_First idxBk) yield s))"
    by (simp add: indexStorage_get_def)
  have "toList it =
       (case indexStorage_start oenc kr idxBk of
          Inl err \<Rightarrow> [Inl err]
        | Inr c \<Rightarrow>
            concat (map (indexStorage_yields odec kr)
                     (takeWhile (\<lambda>kv. \<not> indexStorage_stops odec kr kv) c)))"
    unfolding toList_alt it indexStorage_start_def
    by (simp add: indexStorage_get_loop_collect split: option.splits sum.splits)
  with bk show ?thesis by simp
qed

lemma yieldedValues_append [simp]:
  "yieldedValues (xs @ ys) = yieldedValues xs @ yieldedValues ys"
  by (simp add: yieldedValues_def)

lemma indexStorage_ids_Cons [simp]:
  "indexStorage_ids odec kr (kv # c) = indexStorage_hit odec kr kv @ indexStorage_ids odec kr c"
  by (simp add: indexStorage_ids_def)

lemma indexStorage_ids_Nil [simp]: "indexStorage_ids odec kr [] = []"
  by (simp add: indexStorage_ids_def)

lemma yieldedValues_yields1:
  "yieldedValues (indexStorage_yields odec kr kv) = indexStorage_hit odec kr kv"
  by (auto simp: yieldedValues_def indexStorage_yields_def indexStorage_hit_def
      indexStorage_decoded_def split: sum.splits option.splits)

lemma yieldedValues_yields:
  "yieldedValues (concat (map (indexStorage_yields odec kr) c)) = indexStorage_ids odec kr c"
  by (induction c) (simp_all add: yieldedValues_yields1, simp add: yieldedValues_def)

lemma indexStorage_contains_lessThanEnd:
  "keyRange_contains kr k \<Longrightarrow> indexStorage_lessThanEnd kr k"
  by (auto simp: keyRange_contains_def indexStorage_lessThanEnd_def bytes_Compare_def Let_def
      split: option.splits)

lemma indexStorage_lessThanEnd_mono:
  "indexStorage_lessThanEnd kr k' \<Longrightarrow> k \<le> k' \<Longrightarrow> indexStorage_lessThanEnd kr k"
  by (auto simp: indexStorage_lessThanEnd_def bytes_Compare_def Let_def
      split: option.splits if_splits)

lemma indexStorage_hit_empty:
  assumes "\<And>p. indexStorage_decoded odec (fst kv) = Some p \<Longrightarrow> \<not> keyRange_contains kr (fst p)"
  shows "indexStorage_hit odec kr kv = []"
  using assms by (auto simp: indexStorage_hit_def split: option.splits)

lemma indexStorage_ids_empty:
  assumes "\<And>kv p. kv \<in> set c \<Longrightarrow> indexStorage_decoded odec (fst kv) = Some p \<Longrightarrow>
             \<not> keyRange_contains kr (fst p)"
  shows "indexStorage_ids odec kr c = []"
  using assms
proof (induction c)
  case Nil
  then show ?case by simp
next
  case (Cons kv c)
  have "indexStorage_ids odec kr c = []"
  proof (rule Cons.IH)
    fix x p
    assume "x \<in> set c" "indexStorage_decoded odec (fst x) = Some p"
    with Cons.prems [of x p] show "\<not> keyRange_contains kr (fst p)" by simp
  qed
  moreover have "indexStorage_hit odec kr kv = []"
  proof (rule indexStorage_hit_empty)
    fix p
    assume "indexStorage_decoded odec (fst kv) = Some p"
    with Cons.prems [of kv p] show "\<not> keyRange_contains kr (fst p)" by simp
  qed
  ultimately show ?case by simp
qed

lemma indexStorage_ids_takeWhile:
  assumes sorted: "sorted (map fst c)"
    and mono: "\<And>kv kv' p p'. kv \<in> set c \<Longrightarrow> kv' \<in> set c \<Longrightarrow>
         indexStorage_decoded odec (fst kv) = Some p \<Longrightarrow>
         indexStorage_decoded odec (fst kv') = Some p' \<Longrightarrow>
         fst kv \<le> fst kv' \<Longrightarrow> fst p \<le> fst p'"
  shows "indexStorage_ids odec kr (takeWhile (\<lambda>kv. \<not> indexStorage_stops odec kr kv) c) =
         indexStorage_ids odec kr c"
  using sorted mono
proof (induction c)
  case Nil
  then show ?case by simp
next
  case (Cons kv c)
  show ?case
  proof (cases "indexStorage_stops odec kr kv")
    case False
    have "indexStorage_ids odec kr (takeWhile (\<lambda>kv. \<not> indexStorage_stops odec kr kv) c) =
          indexStorage_ids odec kr c"
    proof (rule Cons.IH)
      from Cons.prems(1) show "sorted (map fst c)" by simp
    next
      fix x x' p p'
      assume "x \<in> set c" "x' \<in> set c" "indexStorage_decoded odec (fst x) = Some p"
        "indexStorage_decoded odec (fst x') = Some p'" "fst x \<le> fst x'"
      with Cons.prems(2) [of x x' p p'] show "fst p \<le> fst p'" by simp
    qed
    with False show ?thesis by simp
  next
    case True
    then obtain p where p: "indexStorage_decoded odec (fst kv) = Some p"
      and out: "\<not> keyRange_contains kr (fst p)" "\<not> indexStorage_lessThanEnd kr (fst p)"
      by (auto simp: indexStorage_stops_def split: option.splits)
    have "indexStorage_ids odec kr (kv # c) = []"
    proof (rule indexStorage_ids_empty)
      fix x q
      assume x: "x \<in> set (kv # c)" and q: "indexStorage_decoded odec (fst x) = Some q"
      from Cons.prems(1) x have "fst kv \<le> fst x" by auto
      with Cons.prems(2) [of kv x p q] x p q have "fst p \<le> fst q" by simp
      with out(2) indexStorage_lessThanEnd_mono have "\<not> indexStorage_lessThanEnd kr (fst q)"
        by blast
      with indexStorage_contains_lessThanEnd show "\<not> keyRange_contains kr (fst q)"
        by blast
    qed
    with True show ?thesis by simp
  qed
qed

lemma indexStorage_ids_Seek:
  assumes "\<And>kv p. kv \<in> set c \<Longrightarrow> indexStorage_decoded odec (fst kv) = Some p \<Longrightarrow>
             fst kv < seekPrefix \<Longrightarrow> \<not> keyRange_contains kr (fst p)"
  shows "indexStorage_ids odec kr (cursor_Seek seekPrefix c) = indexStorage_ids odec kr c"
  using assms
proof (induction c)
  case Nil
  then show ?case by (simp add: cursor_Seek_def)
next
  case (Cons kv c)
  show ?case
  proof (cases "fst kv < seekPrefix")
    case False
    then show ?thesis by (simp add: cursor_Seek_def)
  next
    case True
    have "indexStorage_ids odec kr (cursor_Seek seekPrefix c) = indexStorage_ids odec kr c"
    proof (rule Cons.IH)
      fix x p
      assume "x \<in> set c" "indexStorage_decoded odec (fst x) = Some p" "fst x < seekPrefix"
      with Cons.prems [of x p] show "\<not> keyRange_contains kr (fst p)" by simp
    qed
    moreover have "indexStorage_hit odec kr kv = []"
    proof (rule indexStorage_hit_empty)
      fix p
      assume "indexStorage_decoded odec (fst kv) = Some p"
      with Cons.prems [of kv p] True show "\<not> keyRange_contains kr (fst p)" by simp
    qed
    ultimately show ?thesis using True
      by (simp add: cursor_Seek_def)
  qed
qed

lemma sorted_cursor_Seek: "sorted (map fst c) \<Longrightarrow> sorted (map fst (cursor_Seek k c))"
  unfolding cursor_Seek_def by (induction c) auto

lemma set_cursor_Seek: "set (cursor_Seek k c) \<subseteq> set c"
  unfolding cursor_Seek_def by (rule set_dropWhileD [THEN subsetI])

text \<open>
  C8, as the code has it. For an index of any number of columns, the items
  \<open>indexStorage.get\<close> hands over are those of the stored keys from the seek position up to
  the first key at which the loop breaks: the row id of a key that decodes to exactly
  two components (key bytes or string, then an integer id) whose leading component the
  range contains, the error of a key that does not decode, and nothing for any other
  key. In particular a key whose decoded component count is not exactly 2 is skipped
  without error and never ends the scan; the scan ends at the first two-component key
  whose leading component lies beyond \<open>endKey\<close> (respecting \<open>includeEnd\<close>). On a bucket
  in key order with an order-preserving codec, the ids handed over are those of all the
  stored keys whose leading component the range contains.
\<close>

theorem indexStorage_get_scan:
  assumes get: "indexStorage_get oenc odec idx name kr = Inr it"
  shows "\<exists>idxBk. idx name = Some idxBk \<and>
     toList it =
       (case indexStorage_start oenc kr idxBk of
          Inl err \<Rightarrow> [Inl err]
        | Inr c \<Rightarrow>
            concat (map (indexStorage_yields odec kr)
                     (takeWhile (\<lambda>kv. \<not> indexStorage_stops odec kr kv) c))) \<and>
     (\<forall>kv parts. odec (fst kv) = Inr parts \<and> length parts \<noteq> 2 \<longrightarrow>
        indexStorage_yields odec kr kv = [] \<and> \<not> indexStorage_stops odec kr kv) \<and>
     (sorted (map fst idxBk) \<and> codec_ordered oenc odec kr idxBk \<longrightarrow>
        yieldedValues (toList it) = indexStorage_ids odec kr idxBk)"
proof -
  from indexStorage_get_toList [OF get] obtain idxBk where
    bk: "idx name = Some idxBk" and
    tl: "toList it =
       (case indexStorage_start oenc kr idxBk of
          Inl err \<Rightarrow> [Inl err]
        | Inr c \<Rightarrow>
            concat (map (indexStorage_yields odec kr)
                     (takeWhile (\<lambda>kv. \<not> indexStorage_stops odec kr kv) c)))"
    by blast
  have skip: "\<forall>kv parts. odec (fst kv) = Inr parts \<and> length parts \<noteq> 2 \<longrightarrow>
        indexStorage_yields odec kr kv = [] \<and> \<not> indexStorage_stops odec kr kv"
    by (simp add: indexStorage_yields_def indexStorage_stops_def indexStorage_decoded_def)
  have all: "yieldedValues (toList it) = indexStorage_ids odec kr idxBk"
    if sorted: "sorted (map fst idxBk)" and co: "codec_ordered oenc odec kr idxBk"
  proof -
    from co have mono: "\<And>kv kv' p p'. kv \<in> set idxBk \<Longrightarrow> kv' \<in> set idxBk \<Longrightarrow>
         indexStorage_decoded odec (fst kv) = Some p \<Longrightarrow>
         indexStorage_decoded odec (fst kv') = Some p' \<Longrightarrow>
         fst kv \<le> fst kv' \<Longrightarrow> fst p \<le> fst p'"
      unfolding codec_ordered_def by blast
    show ?thesis
    proof (cases "startKey kr")
      case None
      then have st: "indexStorage_start oenc kr idxBk = Inr idxBk"
        by (simp add: indexStorage_start_def cursor_First_def)
      show ?thesis
        unfolding tl st
        by (simp add: yieldedValues_yields indexStorage_ids_takeWhile [OF sorted mono])
    next
      case (Some sk)
      with co obtain seekPrefix where
        pre: "orderedMa_Marshal oenc (VList [VBytes sk]) = Inr seekPrefix" and
        below: "\<And>kv p. kv \<in> set idxBk \<Longrightarrow> indexStorage_decoded odec (fst kv) = Some p \<Longrightarrow>
               fst kv < seekPrefix \<Longrightarrow> fst p < sk"
        unfolding codec_ordered_def by blast
      from Some pre have st: "indexStorage_start oenc kr idxBk = Inr (cursor_Seek seekPrefix idxBk)"
        by (simp add: indexStorage_start_def)
      have out: "\<And>kv p. kv \<in> set idxBk \<Longrightarrow> indexStorage_decoded odec (fst kv) = Some p \<Longrightarrow>
               fst kv < seekPrefix \<Longrightarrow> \<not> keyRange_contains kr (fst p)"
        using below Some by (fastforce simp: keyRange_contains_def)
      have mono': "\<And>kv kv' p p'. kv \<in> set (cursor_Seek seekPrefix idxBk) \<Longrightarrow>
         kv' \<in> set (cursor_Seek seekPrefix idxBk) \<Longrightarrow>
         indexStorage_decoded odec (fst kv) = Some p \<Longrightarrow>
         indexStorage_decoded odec (fst kv') = Some p' \<Longrightarrow>
         fst kv \<le> fst kv' \<Longrightarrow> fst p \<le> fst p'"
        using mono set_cursor_Seek by blast
      show ?thesis
        unfolding tl st
        by (simp add: yieldedValues_yields
            indexStorage_ids_takeWhile [OF sorted_cursor_Seek [OF sorted] mono']
            indexStorage_ids_Seek [OF out])
    qed
  qed
  from bk tl skip all show ?thesis by blast
qed

lemma demo_insert:
  "indexStorage_insert demo_ienc [''loc'' \<mapsto> []] ''loc'' \<lparr>Key = [1, 2], Id = 7\<rparr> =
     (None, [''loc'' \<mapsto> [([1, 2, 0, 7], [])]])"
  by (simp add: indexStorage_insert_def demo_ienc_def orderedMa_Marshal_def)

text \<open>
  C8 as stated fails for an index over \<open>k = 2\<close> columns: the key that \<open>insert\<close> stores
  for it decodes to two components, not \<open>k + 1 = 3\<close>, and \<open>get\<close> yields its row id.
\<close>

theorem indexStorage_get_count_counterexample:
  "demo_idec [1, 2, 0, 7] = Inr [VBytes [1, 2], VUint64 7] \<and>
   spec_skips_entry 2 [VBytes [1, 2], VUint64 7] \<and>
   toList (seqOf (indexStorage_get demo_ienc demo_idec [''loc'' \<mapsto> [([1, 2, 0, 7], [])]] ''loc''
             fullRange)) = [Inr 7]"
  by (simp add: demo_idec_def spec_skips_entry_def toList_alt seqOf_def indexStorage_get_def
      fullRange_def cursor_First_def indexStorage_valBytes_def indexStorage_id_def
      keyRange_contains_def)

lemma demo_decoded:
  "indexStorage_decoded demo_idec [1, 2, 0, 7] = Some ([1, 2], 7)"
  "indexStorage_decoded demo_idec [1, 2, 0, 7, 5] = None"
  "indexStorage_decoded demo_idec [1, 3, 0, 8] = Some ([1, 3], 8)"
  "indexStorage_decoded demo_idec [2, 1, 0, 9] = Some ([2, 1], 9)"
  by (simp_all add: indexStorage_decoded_def demo_idec_def indexStorage_valBytes_def
      indexStorage_id_def)

lemma demo_codec_ordered:
  "sorted (map fst demo_locBucket) \<and> codec_ordered demo_ienc demo_idec demo_locRange demo_locBucket"
  by (simp add: demo_locBucket_def codec_ordered_def demo_decoded demo_locRange_def
      demo_ienc_def orderedMa_Marshal_def)

theorem indexStorage_get_scan_witness:
  "\<exists>it. indexStorage_get demo_ienc demo_idec demo_loc ''loc'' demo_locRange = Inr it \<and>
     toList it = [Inr 7, Inr 8] \<and>
     sorted (map fst demo_locBucket) \<and>
     codec_ordered demo_ienc demo_idec demo_locRange demo_locBucket \<and>
     yieldedValues (toList it) = indexStorage_ids demo_idec demo_locRange demo_locBucket"
proof -
  have "\<exists>it :: (error + 64 word, (error + 64 word) list) seq2.
      indexStorage_get demo_ienc demo_idec demo_loc ''loc'' demo_locRange = Inr it"
    by (simp add: indexStorage_get_def demo_loc_def)
  then obtain it :: "(error + 64 word, (error + 64 word) list) seq2" where
    it: "indexStorage_get demo_ienc demo_idec demo_loc ''loc'' demo_locRange = Inr it" ..
  have bk: "demo_loc ''loc'' = Some demo_locBucket"
    by (simp add: demo_loc_def demo_locBucket_def)
  have start: "indexStorage_start demo_ienc demo_locRange demo_locBucket = Inr demo_locBucket"
    by (simp add: indexStorage_start_def demo_locRange_def demo_ienc_def orderedMa_Marshal_def
        cursor_Seek_def demo_locBucket_def)
  from indexStorage_get_scan [OF it] obtain b where
    b: "demo_loc ''loc'' = Some b" and
    sc: "toList it =
       (case indexStorage_start demo_ienc demo_locRange b of
          Inl err \<Rightarrow> [Inl err]
        | Inr c \<Rightarrow>
            concat (map (indexStorage_yields demo_idec demo_locRange)
                     (takeWhile (\<lambda>kv. \<not> indexStorage_stops demo_idec demo_locRange kv) c)))" and
    ids: "sorted (map fst b) \<and> codec_ordered demo_ienc demo_idec demo_locRange b \<longrightarrow>
       yieldedValues (toList it) = indexStorage_ids demo_idec demo_locRange b"
    by blast
  from b bk have eq: "b = demo_locBucket" by simp
  from sc have scan: "toList it =
       concat (map (indexStorage_yields demo_idec demo_locRange)
         (takeWhile (\<lambda>kv. \<not> indexStorage_stops demo_idec demo_locRange kv) demo_locBucket))"
    by (simp add: eq start)
  from scan have tl: "toList it = [Inr 7, Inr 8]"
    by (simp add: indexStorage_yields_def indexStorage_stops_def demo_decoded demo_locRange_def
        keyRange_contains_def indexStorage_lessThanEnd_def bytes_Compare_def demo_idec_def
        demo_locBucket_def)
  from ids demo_codec_ordered eq
  have "yieldedValues (toList it) = indexStorage_ids demo_idec demo_locRange demo_locBucket"
    by blast
  with it tl demo_codec_ordered show ?thesis by blast
qed

section \<open>The planner\<close>

lemma dataStorage_get_loop_fold:
  assumes "\<And>a s. fst (yield a s)"
  shows "dataStorage_get_loop mu kr c yield s =
     foldl (\<lambda>s a. snd (yield a s)) s (map (dataStorage_item mu) (dataStorage_scanned kr c))"
proof (induction c arbitrary: s)
  case Nil
  then show ?case by (simp add: dataStorage_scanned_def)
next
  case (Cons kv c)
  obtain k v where kv: "kv = (k, v)" by (cases kv)
  have y: "\<And>a s. \<exists>s'. yield a s = (True, s')"
    using assms by (metis prod.collapse)
  show ?case
  proof (cases "Unmarshal mu v")
    case (Inl err)
    from y [of "Inl err" s] obtain s' where "yield (Inl err) s = (True, s')" ..
    with Inl show ?thesis
      by (simp add: kv Cons.IH dataStorage_item_def dataStorage_scanned_def)
  next
    case (Inr val)
    from y [of "Inr \<lparr>entry_id = k, entry_value = val\<rparr>" s] obtain s' where
      "yield (Inr \<lparr>entry_id = k, entry_value = val\<rparr>) s = (True, s')" ..
    with Inr show ?thesis
      by (simp add: kv Cons.IH dataStorage_item_def dataStorage_scanned_def)
  qed
qed

lemma indexes_get_loop_fold:
  assumes "\<And>a s. fst (yield a s)"
  shows "indexes_get_loop kr c yield s =
     foldl (\<lambda>s a. snd (yield a s)) s (map (\<lambda>kv. snd (fst kv)) (indexes_scanned kr c))"
proof (induction c arbitrary: s)
  case Nil
  then show ?case by (simp add: indexes_scanned_def)
next
  case (Cons kv c)
  obtain key ident v where kv: "kv = ((key, ident), v)" by (cases kv) auto
  have "\<exists>s'. yield ident s = (True, s')"
    using assms by (metis prod.collapse)
  then obtain s' where "yield ident s = (True, s')" ..
  then show ?case
    by (simp add: kv Cons.IH indexes_scanned_def)
qed

lemma foldl_collect: "foldl (\<lambda>s a. s @ f a) s xs = s @ concat (map f xs)"
  by (induction xs arbitrary: s) simp_all

lemma dataStorage_get_fold:
  assumes "\<And>a s. fst (yield a s)"
  shows "dataStorage_get d kr yield s =
     foldl (\<lambda>s a. snd (yield a s)) s (toList (dataStorage_get d kr))"
proof -
  have 1: "toList (dataStorage_get d kr) =
      foldl (\<lambda>s a. s @ [a]) [] (map (dataStorage_item (data_maUn d))
        (dataStorage_scanned kr
           (let c0 = (case startKey kr of
                  Some sk \<Rightarrow> cursor_Seek sk (data_bucket d)
                | None \<Rightarrow> cursor_First (data_bucket d))
            in if \<not> includeStart kr then cursor_Next c0 else c0)))"
    unfolding toList_alt dataStorage_get_def Let_def
    by (subst dataStorage_get_loop_fold) simp_all
  show ?thesis
    unfolding 1 unfolding dataStorage_get_def Let_def
    by (subst dataStorage_get_loop_fold [OF assms])
       (simp add: foldl_collect [where f = "\<lambda>a. [a]", simplified])
qed

lemma iter_match_collect:
  "iter_match oenc pr ranges skip (\<lambda>a s. (True, s @ [a])) item s =
     (True, s @ iter_items oenc pr ranges skip item)"
  by (simp add: iter_match_def iter_items_def split: sum.splits)

lemma toList_iter_fullScan:
  "toList (iter_fullScan oenc pr ranges) =
     concat (map (iter_items oenc pr ranges []) (toList (dataStorage_get (data pr) fullRange)))"
  unfolding toList_alt [of "iter_fullScan oenc pr ranges"] iter_fullScan_def
  by (subst dataStorage_get_fold) (simp_all add: iter_match_collect foldl_collect)

lemma indexes_get_fold:
  assumes get: "indexes_get idx name kr = Inr idxes"
    and cont: "\<And>a s. fst (yield a s)"
  shows "idxes yield s = foldl (\<lambda>s a. snd (yield a s)) s (indexes_ids idx name kr)"
proof -
  from get obtain idxBk where bk: "idx name = Some idxBk" and
    it: "idxes = (\<lambda>yield s. case startKey kr of
           Some sk \<Rightarrow> indexes_get_loop kr (cursor_Seek (sk, []) idxBk) yield s
         | None \<Rightarrow> indexes_get_loop kr (cursor_First idxBk) yield s)"
    by (auto simp: indexes_get_def split: option.splits)
  show ?thesis
    unfolding it indexes_ids_def bk
    by (cases "startKey kr") (simp_all add: indexes_get_loop_fold [OF cont])
qed

lemma toList_indexes_get:
  assumes "indexes_get idx name kr = Inr idxes"
  shows "toList idxes = indexes_ids idx name kr"
  unfolding toList_alt
  by (subst indexes_get_fold [OF assms]) (simp_all add: foldl_collect [where f = "\<lambda>a. [a]", simplified])

lemma iter_inner_fold:
  "foldl (\<lambda>st a. snd ((\<lambda>item (s1, returned).
              (case iter_match oenc pr ranges skip (\<lambda>a s. (True, s @ [a])) item s1 of
                 (ok, s2) \<Rightarrow> (ok, (s2, \<not> ok)))) a st)) (s, False) items =
   (s @ concat (map (iter_items oenc pr ranges skip) items), False)"
  by (induction items arbitrary: s) (simp_all add: iter_match_collect)

lemma iter_outer_collect:
  "(case dataStorage_get (data pr)
           \<lparr>startKey = Some idBytes, endKey = Some idBytes,
            includeStart = True, includeEnd = True, excludes = []\<rparr>
           (\<lambda>item (s1, returned).
              (case iter_match oenc pr ranges skip (\<lambda>a s. (True, s @ [a])) item s1 of
                 (ok, s2) \<Rightarrow> (ok, (s2, \<not> ok))))
           (s0, False) of
      (s3, returned) \<Rightarrow> (\<not> returned, s3)) =
   (True, s0 @ iter_fetched oenc pr ranges skip idBytes)"
proof -
  have c: "\<And>a st. fst ((\<lambda>item (s1, returned).
              (case iter_match oenc pr ranges skip (\<lambda>a s. (True, s @ [a])) item s1 of
                 (ok, s2) \<Rightarrow> (ok, (s2, \<not> ok)))) a st)"
    by (simp add: iter_match_collect split: prod.splits)
  show ?thesis
    by (subst dataStorage_get_fold [OF c])
       (simp add: iter_inner_fold iter_fetched_def pointRange_def)
qed

lemma toList_iter_indexScan:
  assumes "indexes_get idx name kr = Inr idxes"
  shows "toList (iter_indexScan oenc pr ranges skip idxes) =
     concat (map (iter_fetched oenc pr ranges skip) (indexes_ids idx name kr))"
  unfolding toList_alt [of "iter_indexScan oenc pr ranges skip idxes"] iter_indexScan_def
    iter_outer_collect
  by (subst indexes_get_fold [OF assms]) (simp_all add: foldl_collect)

lemma minFunc_foldl:
  fixes f :: "'a \<Rightarrow> bytes"
  defines "step \<equiv> (\<lambda>m xi. if bytes_Compare (f xi) (f m) < 0 then xi else m)"
  shows "foldl step m0 rest \<in> set (m0 # rest) \<and>
     (\<forall>y \<in> set (m0 # rest). f (foldl step m0 rest) \<le> f y) \<and>
     (\<forall>y \<in> set (takeWhile (\<lambda>x. x \<noteq> foldl step m0 rest) (m0 # rest)).
        f (foldl step m0 rest) < f y)"
proof (induction rest rule: rev_induct)
  case Nil
  then show ?case by simp
next
  case (snoc x rest)
  let ?r = "foldl step m0 rest"
  from snoc have r_in: "?r \<in> set (m0 # rest)"
    and r_min: "\<forall>y \<in> set (m0 # rest). f ?r \<le> f y"
    and r_first: "\<forall>y \<in> set (takeWhile (\<lambda>x. x \<noteq> ?r) (m0 # rest)). f ?r < f y"
    by blast+
  show ?case
  proof (cases "f x < f ?r")
    case True
    then have new: "foldl step m0 (rest @ [x]) = x"
      by (simp add: step_def bytes_Compare_def)
    from True r_min have notin: "x \<notin> set (m0 # rest)"
      by (meson leD)
    then have tw: "takeWhile (\<lambda>y. y \<noteq> x) ((m0 # rest) @ [x]) = m0 # rest"
      by (subst takeWhile_append2) auto
    from True r_min have "\<forall>y \<in> set (m0 # rest). f x < f y"
      by (meson less_le_trans)
    with True r_min tw show ?thesis
      unfolding new by (auto simp del: takeWhile.simps(2))
  next
    case False
    then have same: "foldl step m0 (rest @ [x]) = ?r"
      by (simp add: step_def bytes_Compare_def)
    from r_in have tw: "takeWhile (\<lambda>y. y \<noteq> ?r) ((m0 # rest) @ [x]) =
        takeWhile (\<lambda>y. y \<noteq> ?r) (m0 # rest)"
      by (intro takeWhile_append1 [where x = ?r]) auto
    from False have "f ?r \<le> f x" by simp
    with r_in r_min r_first tw show ?thesis
      unfolding same by (auto simp del: takeWhile.simps(2))
  qed
qed

lemma takeWhile_filter_neq:
  "P c \<Longrightarrow> takeWhile (\<lambda>x. x \<noteq> c) (filter P xs) = filter P (takeWhile (\<lambda>x. x \<noteq> c) xs)"
  by (induction xs) auto

lemma shortestRange_first_minimal:
  assumes sel: "selectIndexes pr ranges \<noteq> []"
  shows "\<exists>chosen rangeIdx.
     shortestRange dist ranges (selectIndexes pr ranges) = Some chosen \<and>
     chosen \<in> set (allIndexes pr) \<and> map_of ranges chosen = Some rangeIdx \<and>
     (\<forall>j \<in> set (allIndexes pr). map_of ranges j \<noteq> None \<longrightarrow>
        distanceOf dist ranges chosen \<le> distanceOf dist ranges j) \<and>
     (\<forall>j \<in> set (takeWhile (\<lambda>x. x \<noteq> chosen) (allIndexes pr)). map_of ranges j \<noteq> None \<longrightarrow>
        distanceOf dist ranges chosen < distanceOf dist ranges j)"
proof -
  from sel obtain m0 rest where mr: "selectIndexes pr ranges = m0 # rest"
    by (cases "selectIndexes pr ranges") auto
  define chosen where "chosen = foldl (\<lambda>m xi.
     if bytes_Compare (distanceOf dist ranges xi) (distanceOf dist ranges m) < 0 then xi else m) m0 rest"
  have sr: "shortestRange dist ranges (selectIndexes pr ranges) = Some chosen"
    by (simp add: shortestRange_def slices_MinFunc_def mr chosen_def)
  note mf = minFunc_foldl [where f = "distanceOf dist ranges" and ?m0.0 = m0 and rest = rest,
      folded chosen_def, folded mr]
  from mf have c_sel: "chosen \<in> set (selectIndexes pr ranges)" by blast
  then have c_all: "chosen \<in> set (allIndexes pr)" and c_rng: "map_of ranges chosen \<noteq> None"
    by (auto simp: selectIndexes_def)
  from c_rng obtain rangeIdx where ri: "map_of ranges chosen = Some rangeIdx" by auto
  have min: "\<forall>j \<in> set (allIndexes pr). map_of ranges j \<noteq> None \<longrightarrow>
        distanceOf dist ranges chosen \<le> distanceOf dist ranges j"
  proof (intro ballI impI)
    fix j assume "j \<in> set (allIndexes pr)" "map_of ranges j \<noteq> None"
    then have "j \<in> set (selectIndexes pr ranges)" by (simp add: selectIndexes_def)
    with mf show "distanceOf dist ranges chosen \<le> distanceOf dist ranges j" by blast
  qed
  have first: "\<forall>j \<in> set (takeWhile (\<lambda>x. x \<noteq> chosen) (allIndexes pr)). map_of ranges j \<noteq> None \<longrightarrow>
        distanceOf dist ranges chosen < distanceOf dist ranges j"
  proof (intro ballI impI)
    fix j assume j: "j \<in> set (takeWhile (\<lambda>x. x \<noteq> chosen) (allIndexes pr))" "map_of ranges j \<noteq> None"
    have "takeWhile (\<lambda>x. x \<noteq> chosen) (selectIndexes pr ranges) =
        filter (\<lambda>idxName. map_of ranges idxName \<noteq> None) (takeWhile (\<lambda>x. x \<noteq> chosen) (allIndexes pr))"
      unfolding selectIndexes_def using c_rng by (rule takeWhile_filter_neq)
    with j have "j \<in> set (takeWhile (\<lambda>x. x \<noteq> chosen) (selectIndexes pr ranges))" by simp
    with mf show "distanceOf dist ranges chosen < distanceOf dist ranges j" by blast
  qed
  from sr c_all ri min first show ?thesis by blast
qed

lemma matchOps_composite_skip:
  "matchOps_composite pr value skip (filter (\<lambda>nr. fst nr \<noteq> skip) keyRanges) compositeValue =
   matchOps_composite pr value skip keyRanges compositeValue"
proof (induction keyRanges arbitrary: compositeValue)
  case Nil
  then show ?case by simp
next
  case (Cons nr keyRanges)
  obtain k r where nr: "nr = (k, r)" by (cases nr)
  show ?case
    by (simp add: nr Cons.IH del: fun_upd_apply split: option.splits sum.splits)
qed

lemma matchOps_test_skip:
  "matchOps_test oenc value skip compositeValue (filter (\<lambda>nr. fst nr \<noteq> skip) keyRanges) =
   matchOps_test oenc value skip compositeValue keyRanges"
proof (induction keyRanges)
  case Nil
  then show ?case by simp
next
  case (Cons nr keyRanges)
  obtain k r where nr: "nr = (k, r)" by (cases nr)
  show ?case
    by (simp add: nr Cons.IH split: option.splits sum.splits)
qed

lemma matchOps_skip:
  "matchOps oenc pr value (filter (\<lambda>nr. fst nr \<noteq> skip) keyRanges) skip =
   matchOps oenc pr value keyRanges skip"
  by (simp add: matchOps_def matchOps_composite_skip matchOps_test_skip split: sum.splits)

section \<open>The probe of the unique indexes\<close>

lemma indexes_get_loop_probe:
  "indexes_get_loop kr c (\<lambda>ident found. (False, True)) False = (indexes_scanned kr c \<noteq> [])"
proof (induction c)
  case Nil
  then show ?case by (simp add: indexes_scanned_def)
next
  case (Cons kv c)
  obtain key ident v where kv: "kv = ((key, ident), v)" by (cases kv) auto
  show ?case
    using Cons.IH by (simp add: kv indexes_scanned_def)
qed

lemma in_set_dropWhile: "x \<in> set xs \<Longrightarrow> \<not> P x \<Longrightarrow> x \<in> set (dropWhile P xs)"
  by (induction xs) auto

lemma pointRange_contains [simp]: "keyRange_contains (pointRange key) k = (k = key)"
  by (auto simp: keyRange_contains_def pointRange_def)

lemma pointRange_startKey [simp]: "startKey (pointRange key) = Some key"
  by (simp add: pointRange_def)

lemma probe_scanned:
  assumes "sorted (map fst idxBk)"
  shows "(indexes_scanned (pointRange key) (cursor_Seek (key, []) idxBk) \<noteq> []) =
         (key \<in> indexes_keys idxBk)"
proof
  assume "indexes_scanned (pointRange key) (cursor_Seek (key, []) idxBk) \<noteq> []"
  then obtain kv where "kv \<in> set (indexes_scanned (pointRange key) (cursor_Seek (key, []) idxBk))"
    by (meson last_in_set)
  then have "kv \<in> set (cursor_Seek (key, []) idxBk)" and "fst (fst kv) = key"
    by (auto simp: indexes_scanned_def dest: set_takeWhileD)
  then show "key \<in> indexes_keys idxBk"
    unfolding cursor_Seek_def indexes_keys_def by (auto dest: set_dropWhileD)
next
  assume "key \<in> indexes_keys idxBk"
  then obtain ident v where m: "((key, ident), v) \<in> set idxBk"
    by (auto simp: indexes_keys_def)
  have "\<not> (key, ident) < (key, [])" by simp
  with m have in_c: "((key, ident), v) \<in> set (cursor_Seek (key, []) idxBk)"
    unfolding cursor_Seek_def by (intro in_set_dropWhile) auto
  then obtain h t where c: "cursor_Seek (key, []) idxBk = h # t"
    by (cases "cursor_Seek (key, []) idxBk") auto
  have "sorted (map fst (cursor_Seek (key, []) idxBk))"
    by (rule sorted_cursor_Seek [OF assms])
  with c in_c have le: "fst h \<le> (key, ident)" by auto
  have "\<not> fst h < (key, [])"
    using c unfolding cursor_Seek_def by (metis hd_dropWhile list.distinct(1) list.sel(1))
  with le have "fst (fst h) = key"
    by (cases "fst h") (auto simp: less_prod_def less_eq_prod_def)
  then show "indexes_scanned (pointRange key) (cursor_Seek (key, []) idxBk) \<noteq> []"
    by (simp add: c indexes_scanned_def)
qed

lemma toRanges_Eq:
  "toRanges oenc [Eq name (VList keyParts)] =
     (case oenc keyParts of
        None \<Rightarrow> Inl (ErrCannotMarshal (VList keyParts))
      | Some key \<Rightarrow> Inr [(name, pointRange key)])"
  by (simp add: toRanges_def Eq_def orderedMa_Marshal_def opRange_def intersectRange_def
      fullRange_def pointRange_def split: option.splits)

lemma Insert_checkUniques_step:
  assumes "oenc (keyPartsOf obj keyFields) = Some key" and "idx uniqueName = Some idxBk"
    and "sorted (map fst idxBk)"
  shows "Insert_checkUniques oenc idx obj ((uniqueName, keyFields) # rest) =
     (if key \<in> indexes_keys idxBk then Some (ErrUniqueConstraint uniqueName)
      else Insert_checkUniques oenc idx obj rest)"
  using assms
  by (simp add: toRanges_Eq indexes_get_def indexes_get_loop_probe probe_scanned
      pointRange_def [symmetric])

lemma Insert_checkUniques_find:
  assumes "uniques_wf oenc idx obj meta"
  shows "Insert_checkUniques oenc idx obj meta =
     (case find (unique_hit oenc idx obj) meta of
        None \<Rightarrow> None
      | Some u \<Rightarrow> Some (ErrUniqueConstraint (fst u)))"
  using assms
proof (induction meta)
  case Nil
  then show ?case by simp
next
  case (Cons u meta)
  obtain n kf where u: "u = (n, kf)" by (cases u)
  from Cons.prems obtain key idxBk where
    k: "oenc (keyPartsOf obj kf) = Some key" and b: "idx n = Some idxBk" and
    s: "sorted (map fst idxBk)"
    by (auto simp: uniques_wf_def u)
  from Cons.prems have "uniques_wf oenc idx obj meta"
    by (simp add: uniques_wf_def)
  then have ih: "Insert_checkUniques oenc idx obj meta =
     (case find (unique_hit oenc idx obj) meta of
        None \<Rightarrow> None
      | Some u \<Rightarrow> Some (ErrUniqueConstraint (fst u)))"
    by (rule Cons.IH)
  note step = Insert_checkUniques_step
    [where oenc = oenc and obj = obj and keyFields = kf and key = key and idx = idx
       and uniqueName = n and idxBk = idxBk and rest = meta, OF k b s]
  have h: "unique_hit oenc idx obj (n, kf) = (key \<in> indexes_keys idxBk)"
    by (simp add: unique_hit_def k b)
  show ?case
    unfolding u step
    by (simp add: ih h)
qed

lemma bucket_Get_Put: "bucket_Get k (bucket_Put k v b) = Some v"
  by (induction b) (auto simp: bucket_Get_def)

lemma Insert_rejects_hit:
  assumes count: "card (dom obj) = length (columns pr)"
    and nomiss: "find (\<lambda>col. obj col = None) (columns pr) = None"
    and ins: "dataStorage_insert oenc (data pr) obj = (Inr ident, d)"
    and wf: "uniques_wf oenc (indexes pr) obj (uniquesMeta pr)"
    and u: "u \<in> set (uniquesMeta pr)"
    and hit: "unique_hit oenc (indexes pr) obj u"
  shows "\<exists>u' payload.
     find (unique_hit oenc (indexes pr) obj) (uniquesMeta pr) = Some u' \<and>
     Insert oenc pr obj = (Some (ErrUniqueConstraint (fst u')), pr\<lparr>data := d\<rparr>) \<and>
     Marshal (data_maUn (data pr)) obj = Inr payload \<and>
     bucket_Get ident (data_bucket d) = Some payload \<and>
     data_sequence d = data_sequence (data pr) + 1"
proof -
  from u hit have "find (unique_hit oenc (indexes pr) obj) (uniquesMeta pr) \<noteq> None"
    unfolding find_None_iff by blast
  then obtain u' where f: "find (unique_hit oenc (indexes pr) obj) (uniquesMeta pr) = Some u'"
    by blast
  from wf f have chk: "Insert_checkUniques oenc (indexes pr) obj (uniquesMeta pr) =
      Some (ErrUniqueConstraint (fst u'))"
    by (simp add: Insert_checkUniques_find)
  from count nomiss ins chk
  have res: "Insert oenc pr obj = (Some (ErrUniqueConstraint (fst u')), pr\<lparr>data := d\<rparr>)"
    by (simp add: Insert_def)
  from ins obtain payload where
    p: "Marshal (data_maUn (data pr)) obj = Inr payload" and
    d: "d = (data pr)\<lparr>data_sequence := data_sequence (data pr) + 1,
              data_bucket := bucket_Put ident payload (data_bucket (data pr))\<rparr>"
    by (auto simp: dataStorage_insert_def Let_def split: sum.splits)
  from d have "bucket_Get ident (data_bucket d) = Some payload"
    and "data_sequence d = data_sequence (data pr) + 1"
    by (simp_all add: bucket_Get_Put)
  with f res p show ?thesis by blast
qed

text \<open>
  C3 as stated fails: after the second insert of \<open>email = 5\<close> is rejected, the DataStore
  holds an entry under the row id \<open>[2]\<close> that it did not hold before.
\<close>

theorem Insert_unique_violation_counterexample:
  "Insert demo_oenc demo_users [''id'' \<mapsto> VUint64 1, ''email'' \<mapsto> VUint64 5] = (None, demo_users1) \<and>
   fst (Insert demo_oenc demo_users1 [''id'' \<mapsto> VUint64 2, ''email'' \<mapsto> VUint64 5]) =
     Some (ErrUniqueConstraint ''email'') \<and>
   bucket_Get [2] (data_bucket (data demo_users1)) = None \<and>
   bucket_Get [2] (data_bucket (data (snd (Insert demo_oenc demo_users1
       [''id'' \<mapsto> VUint64 2, ''email'' \<mapsto> VUint64 5])))) = Some [2, 5]"
  by (simp add: demo_defs demo_users1_def model_defs Let_def)

section \<open>Unique indexes across inserts and deletes\<close>

lemma set_bucket_Put: "fst ` set (bucket_Put k v b) = insert k (fst ` set b)"
proof (induction b)
  case Nil
  then show ?case by simp
next
  case (Cons kv b)
  obtain k' v' where kv: "kv = (k', v')" by (cases kv)
  have "fst ` set (bucket_Put k v ((k', v') # b)) = insert k (insert k' (fst ` set b))"
    using Cons.IH by (cases "k < k'"; cases "k = k'") (simp_all add: insert_commute)
  then show ?case by (simp add: kv)
qed

lemma sorted_bucket_Put: "sorted (map fst b) \<Longrightarrow> sorted (map fst (bucket_Put k v b))"
proof (induction b)
  case Nil
  then show ?case by simp
next
  case (Cons kv b)
  obtain k' v' where kv: "kv = (k', v')" by (cases kv)
  from Cons show ?case
    using set_bucket_Put [of k v b] by (auto simp: kv)
qed

lemma bucket_Put_idem: "bucket_Put k v (bucket_Put k v b) = bucket_Put k v b"
  by (induction b) auto

lemma sorted_bucket_Delete: "sorted (map fst b) \<Longrightarrow> sorted (map fst (bucket_Delete k b))"
  unfolding bucket_Delete_def by (induction b) auto

lemma prefixCount_bucket_Delete: "prefixCount key (bucket_Delete k b) \<le> prefixCount key b"
  unfolding prefixCount_def bucket_Delete_def by (induction b) auto

lemma prefixCount_bucket_Put:
  "prefixCount key (bucket_Put x v b) \<le> prefixCount key b + (if fst x = key then 1 else 0)"
  unfolding prefixCount_def by (induction b) auto

lemma prefixCount_absent: "key \<notin> indexes_keys b \<Longrightarrow> prefixCount key b = 0"
  unfolding prefixCount_def indexes_keys_def by (induction b) auto

lemma Insert_checkUniques_None:
  assumes "Insert_checkUniques oenc idx obj meta = None" and "u \<in> set meta"
  shows "\<exists>key idxBk. oenc (keyPartsOf obj (snd u)) = Some key \<and> idx (fst u) = Some idxBk \<and>
           (sorted (map fst idxBk) \<longrightarrow> key \<notin> indexes_keys idxBk)"
  using assms
proof (induction meta)
  case Nil
  then show ?case by simp
next
  case (Cons m meta)
  obtain n kf where m: "m = (n, kf)" by (cases m)
  from Cons.prems(1) obtain key where k: "oenc (keyPartsOf obj kf) = Some key"
    by (cases "oenc (keyPartsOf obj kf)") (auto simp: m toRanges_Eq)
  from Cons.prems(1) k obtain idxBk where b: "idx n = Some idxBk"
    by (cases "idx n") (auto simp: m toRanges_Eq indexes_get_def)
  from Cons.prems(1) k b have
    noscan: "indexes_scanned (pointRange key) (cursor_Seek (key, []) idxBk) = []" and
    rest: "Insert_checkUniques oenc idx obj meta = None"
    by (auto simp: m toRanges_Eq indexes_get_def indexes_get_loop_probe split: if_splits)
  show ?case
  proof (cases "u = m")
    case True
    from noscan probe_scanned [of idxBk key]
    have "sorted (map fst idxBk) \<longrightarrow> key \<notin> indexes_keys idxBk" by simp
    with True k b show ?thesis by (simp add: m)
  next
    case False
    with Cons.prems(2) have "u \<in> set meta" by simp
    with rest show ?thesis by (rule Cons.IH)
  qed
qed

lemma Insert_updateIndexes_bucket:
  assumes "Insert_updateIndexes oenc obj ident meta idx revIdx = (res, idx', revIdx')"
    and "\<And>cols key. (n, cols) \<in> set meta \<Longrightarrow> oenc (keyPartsOf obj cols) = Some key \<Longrightarrow>
           key = key0"
    and "idx n = orig \<or> (\<exists>b0. orig = Some b0 \<and> idx n = Some (bucket_Put (key0, ident) [] b0))"
  shows "idx' n = orig \<or> (\<exists>b0. orig = Some b0 \<and> idx' n = Some (bucket_Put (key0, ident) [] b0))"
  using assms
proof (induction meta arbitrary: idx revIdx)
  case Nil
  then show ?case by simp
next
  case (Cons m meta)
  obtain name cols where m: "m = (name, cols)" by (cases m)
  show ?case
  proof (cases "indexes_insert oenc idx name (keyPartsOf obj cols) ident")
    case (Pair r idx1)
    show ?thesis
    proof (cases r)
      case (Inl err)
      with Pair Cons.prems(1) have same: "idx' = idx1" by (simp add: m)
      from Pair Inl have "idx1 = idx"
        by (auto simp: indexes_insert_def orderedMa_Marshal_def split: option.splits)
      with same Cons.prems(3) show ?thesis by simp
    next
      case (Inr revIdxField)
      from Pair Inr obtain indexBk key where
        bk: "idx name = Some indexBk" and key: "oenc (keyPartsOf obj cols) = Some key" and
        idx1: "idx1 = idx(name \<mapsto> bucket_Put (key, ident) [] indexBk)"
        by (auto simp: indexes_insert_def orderedMa_Marshal_def split: option.splits)
      have inv1: "idx1 n = orig \<or>
          (\<exists>b0. orig = Some b0 \<and> idx1 n = Some (bucket_Put (key0, ident) [] b0))"
      proof (cases "name = n")
        case False
        with idx1 Cons.prems(3) show ?thesis by simp
      next
        case True
        with Cons.prems(2) [of cols key] key have k0: "key = key0" by (simp add: m)
        from Cons.prems(3) bk True have "orig = Some indexBk \<or>
            (\<exists>b0. orig = Some b0 \<and> indexBk = bucket_Put (key0, ident) [] b0)"
          by auto
        then show ?thesis
          using idx1 True k0 by (auto simp: bucket_Put_idem)
      qed
      from Pair Inr Cons.prems(1) have
        rest: "Insert_updateIndexes oenc obj ident meta idx1
                 (AList.update name revIdxField revIdx) = (res, idx', revIdx')"
        by (simp add: m)
      show ?thesis
      proof (rule Cons.IH [OF rest _ inv1])
        fix c k
        assume "(n, c) \<in> set meta" "oenc (keyPartsOf obj c) = Some k"
        with Cons.prems(2) [of c k] show "k = key0" by simp
      qed
    qed
  qed
qed

lemma Insert_result_indexes:
  "indexes (snd (Insert oenc pr obj)) = indexes pr \<or>
   (\<exists>ident res1 idx1 rev1.
      Insert_checkUniques oenc (indexes pr) obj (uniquesMeta pr) = None \<and>
      Insert_updateIndexes oenc obj ident (indexesMeta pr) (indexes pr) [] = (res1, idx1, rev1) \<and>
      (indexes (snd (Insert oenc pr obj)) = idx1 \<or>
       (\<exists>res2 idx2 rev2.
          Insert_updateIndexes oenc obj ident (uniquesMeta pr) idx1 rev1 = (res2, idx2, rev2) \<and>
          indexes (snd (Insert oenc pr obj)) = idx2)))"
  by (auto simp: Insert_def Let_def split: option.splits sum.splits prod.splits)

lemma Insert_meta [simp]:
  "uniquesMeta (snd (Insert oenc pr obj)) = uniquesMeta pr"
  "indexesMeta (snd (Insert oenc pr obj)) = indexesMeta pr"
  "allIndexes (snd (Insert oenc pr obj)) = allIndexes pr"
  "columns (snd (Insert oenc pr obj)) = columns pr"
  by (auto simp: Insert_def Let_def split: option.splits sum.splits prod.splits)

lemma Insert_unique_bucket:
  assumes schema: "schema_ok pr" and ok: "unique_ok pr" and u: "u \<in> set (uniquesMeta pr)"
    and bk: "indexes (snd (Insert oenc pr obj)) (fst u) = Some idxBk"
  shows "sorted (map fst idxBk) \<and> (\<forall>key. prefixCount key idxBk \<le> 1)"
proof -
  from Insert_result_indexes [of oenc pr obj]
  consider (same) "indexes (snd (Insert oenc pr obj)) = indexes pr"
    | (written) ident res1 idx1 rev1 where
      "Insert_checkUniques oenc (indexes pr) obj (uniquesMeta pr) = None"
      "Insert_updateIndexes oenc obj ident (indexesMeta pr) (indexes pr) [] = (res1, idx1, rev1)"
      "indexes (snd (Insert oenc pr obj)) = idx1 \<or>
       (\<exists>res2 idx2 rev2.
          Insert_updateIndexes oenc obj ident (uniquesMeta pr) idx1 rev1 = (res2, idx2, rev2) \<and>
          indexes (snd (Insert oenc pr obj)) = idx2)"
    by blast
  then show ?thesis
  proof cases
    case same
    with ok u bk show ?thesis by (simp add: unique_ok_def)
  next
    case written
    from Insert_checkUniques_None [OF written(1) u] obtain key0 b0 where
      k0: "oenc (keyPartsOf obj (snd u)) = Some key0" and b0: "indexes pr (fst u) = Some b0" and
      absent: "sorted (map fst b0) \<longrightarrow> key0 \<notin> indexes_keys b0"
      by blast
    from ok u b0 have sorted0: "sorted (map fst b0)" and count0: "\<And>key. prefixCount key b0 \<le> 1"
      by (auto simp: unique_ok_def)
    have cols: "\<And>cols key. (fst u, cols) \<in> set (indexesMeta pr) \<or> (fst u, cols) \<in> set (uniquesMeta pr) \<Longrightarrow>
        oenc (keyPartsOf obj cols) = Some key \<Longrightarrow> key = key0"
    proof -
      fix cols key
      assume "(fst u, cols) \<in> set (indexesMeta pr) \<or> (fst u, cols) \<in> set (uniquesMeta pr)"
        and e: "oenc (keyPartsOf obj cols) = Some key"
      with schema u have "cols = snd u" unfolding schema_ok_def by blast
      with e k0 show "key = key0" by simp
    qed
    have inv1: "idx1 (fst u) = Some b0 \<or>
        (\<exists>b. Some b0 = Some b \<and> idx1 (fst u) = Some (bucket_Put (key0, ident) [] b))"
      by (rule Insert_updateIndexes_bucket [OF written(2)]) (use cols b0 in auto)
    have "idxBk = b0 \<or> idxBk = bucket_Put (key0, ident) [] b0"
    proof -
      from written(3) show ?thesis
      proof
        assume "indexes (snd (Insert oenc pr obj)) = idx1"
        with bk inv1 show ?thesis by auto
      next
        assume "\<exists>res2 idx2 rev2.
          Insert_updateIndexes oenc obj ident (uniquesMeta pr) idx1 rev1 = (res2, idx2, rev2) \<and>
          indexes (snd (Insert oenc pr obj)) = idx2"
        then obtain res2 idx2 rev2 where
          upd2: "Insert_updateIndexes oenc obj ident (uniquesMeta pr) idx1 rev1 = (res2, idx2, rev2)"
          and fin: "indexes (snd (Insert oenc pr obj)) = idx2"
          by blast
        have "idx2 (fst u) = Some b0 \<or>
          (\<exists>b. Some b0 = Some b \<and> idx2 (fst u) = Some (bucket_Put (key0, ident) [] b))"
          by (rule Insert_updateIndexes_bucket [OF upd2 _ inv1]) (use cols in auto)
        with bk fin show ?thesis by auto
      qed
    qed
    then show ?thesis
    proof
      assume "idxBk = b0"
      with sorted0 count0 show ?thesis by simp
    next
      assume put: "idxBk = bucket_Put (key0, ident) [] b0"
      from absent sorted0 have zero: "prefixCount key0 b0 = 0"
        by (simp add: prefixCount_absent)
      have "\<And>key. prefixCount key idxBk \<le> 1"
      proof -
        fix key
        from prefixCount_bucket_Put [of key "(key0, ident)" "[]" b0]
        show "prefixCount key idxBk \<le> 1"
          using zero count0 [of key] by (cases "key0 = key") (auto simp: put)
      qed
      with sorted0 put show ?thesis by (simp add: sorted_bucket_Put)
    qed
  qed
qed

lemma Insert_preserves_unique_ok:
  assumes "schema_ok pr" and "unique_ok pr"
  shows "unique_ok (snd (Insert oenc pr obj))"
  unfolding unique_ok_def
proof (intro ballI allI impI)
  fix u idxBk
  assume "u \<in> set (uniquesMeta (snd (Insert oenc pr obj)))"
    and "indexes (snd (Insert oenc pr obj)) (fst u) = Some idxBk"
  with Insert_unique_bucket [OF assms, of u oenc obj idxBk]
  show "sorted (map fst idxBk) \<and> (\<forall>key. prefixCount key idxBk \<le> 1)" by simp
qed

lemma shrinks_refl: "shrinks idx idx"
  by (simp add: shrinks_def)

lemma shrinks_trans: "shrinks idx2 idx1 \<Longrightarrow> shrinks idx1 idx0 \<Longrightarrow> shrinks idx2 idx0"
  unfolding shrinks_def by (meson order_trans)

lemma indexes_delete_shrinks:
  "shrinks (snd (indexes_delete idx name keyParts keyBytes)) idx"
  by (auto simp: indexes_delete_def shrinks_def sorted_bucket_Delete prefixCount_bucket_Delete
      split: option.splits)

lemma Delete_indexes_shrinks: "shrinks (snd (Delete_indexes pr e revIdx idx)) idx"
proof (induction revIdx arbitrary: idx)
  case Nil
  then show ?case by (simp add: shrinks_refl)
next
  case (Cons r revIdx)
  obtain idxName revIdxField where r: "r = (idxName, revIdxField)" by (cases r)
  show ?case
  proof (cases "map_of (indexesMeta pr) idxName")
    case None
    then show ?thesis by (simp add: r shrinks_refl)
  next
    case (Some keyFields)
    obtain r1 idx1 where
      d1: "indexes_delete idx idxName (keyPartsOf (entry_value e) keyFields) revIdxField = (r1, idx1)"
      by (cases "indexes_delete idx idxName (keyPartsOf (entry_value e) keyFields) revIdxField")
    from indexes_delete_shrinks [of idx idxName "keyPartsOf (entry_value e) keyFields" revIdxField]
    have d: "shrinks idx1 idx" by (simp add: d1)
    show ?thesis
    proof (cases r1)
      case None
      then have "snd (Delete_indexes pr e (r # revIdx) idx) = snd (Delete_indexes pr e revIdx idx1)"
        by (simp add: r Some d1)
      with shrinks_trans [OF Cons.IH d] show ?thesis by simp
    next
      case (Some err)
      then have "snd (Delete_indexes pr e (r # revIdx) idx) = idx1"
        using \<open>map_of (indexesMeta pr) idxName = Some keyFields\<close>
        by (simp add: r d1)
      with d show ?thesis by simp
    qed
  qed
qed

lemma Delete_inv_fst: "Delete_inv pr0 (p, res) = Delete_inv pr0 (p, res')"
  by (simp add: Delete_inv_def)

lemma Delete_body_inv:
  assumes "Delete_inv pr0 st"
  shows "case Delete_body item st of (ok, st') \<Rightarrow> if ok then Delete_inv pr0 st' else Delete_inv pr0 st'"
proof -
  obtain p res where st: "st = (p, res)" by (cases st)
  from assms have inv: "Delete_inv pr0 (p, r)" for r
    by (simp add: st Delete_inv_def)
  show ?thesis
  proof (cases item)
    case (Inl err)
    with inv show ?thesis by (simp add: Delete_body_def st)
  next
    case (Inr e)
    show ?thesis
    proof (cases "reverseIdx_get (reverseIdx p) (entry_id e)")
      case (Inl err)
      with inv Inr show ?thesis by (simp add: Delete_body_def st)
    next
      case rev: (Inr revIdx)
      obtain r idx' where di: "Delete_indexes p e revIdx (indexes p) = (r, idx')"
        by (cases "Delete_indexes p e revIdx (indexes p)")
      from Delete_indexes_shrinks [of p e revIdx "indexes p"] have "shrinks idx' (indexes p)"
        by (simp add: di)
      with inv [of None] have sh: "shrinks idx' (indexes pr0)"
        by (auto simp: Delete_inv_def intro: shrinks_trans)
      from inv [of None] sh show ?thesis
        by (cases r) (simp_all add: Delete_body_def st Inr rev di Delete_inv_def)
    qed
  qed
qed

lemma Delete_inv_result: "Delete_inv pr (snd (Delete oenc dist pr ops), fst (Delete oenc dist pr ops))"
proof (cases "iter oenc dist pr ops :: error + (error + entry, Persistent \<times> error option) seq2")
  case (Inl err)
  then show ?thesis by (simp add: Delete_def Delete_inv_def shrinks_refl)
next
  case (Inr iterEntries)
  have init: "Delete_inv pr (pr, None)"
    by (simp add: Delete_inv_def shrinks_refl)
  from iter_rule [where P = "Delete_inv pr" and Q = "Delete_inv pr" and yield = Delete_body,
      OF Inr Delete_body_inv init]
  have fin: "Delete_inv pr (iterEntries Delete_body (pr, None))" by simp
  obtain p res where r: "iterEntries Delete_body (pr, None) = (p, res)"
    by (cases "iterEntries Delete_body (pr, None)")
  from fin Inr show ?thesis
    by (simp add: Delete_def r)
qed

lemma Delete_meta [simp]:
  "uniquesMeta (snd (Delete oenc dist pr ops)) = uniquesMeta pr"
  "indexesMeta (snd (Delete oenc dist pr ops)) = indexesMeta pr"
  "allIndexes (snd (Delete oenc dist pr ops)) = allIndexes pr"
  "columns (snd (Delete oenc dist pr ops)) = columns pr"
  using Delete_inv_result [of pr oenc dist ops] by (simp_all add: Delete_inv_def)

lemma Delete_preserves_unique_ok:
  assumes "unique_ok pr"
  shows "unique_ok (snd (Delete oenc dist pr ops))"
  unfolding unique_ok_def
proof (intro ballI allI impI)
  fix u idxBk'
  assume u: "u \<in> set (uniquesMeta (snd (Delete oenc dist pr ops)))"
    and b: "indexes (snd (Delete oenc dist pr ops)) (fst u) = Some idxBk'"
  from Delete_inv_result [of pr oenc dist ops]
  have "shrinks (indexes (snd (Delete oenc dist pr ops))) (indexes pr)"
    by (simp add: Delete_inv_def)
  with b obtain idxBk where
    b0: "indexes pr (fst u) = Some idxBk" and
    s: "sorted (map fst idxBk) \<longrightarrow> sorted (map fst idxBk')" and
    c: "\<And>key. prefixCount key idxBk' \<le> prefixCount key idxBk"
    unfolding shrinks_def by blast
  from assms u b0 have "sorted (map fst idxBk)" and "\<And>key. prefixCount key idxBk \<le> 1"
    by (auto simp: unique_ok_def)
  with s c show "sorted (map fst idxBk') \<and> (\<forall>key. prefixCount key idxBk' \<le> 1)"
    by (meson order_trans)
qed

lemma schema_ok_cong:
  "uniquesMeta pr' = uniquesMeta pr \<Longrightarrow> indexesMeta pr' = indexesMeta pr \<Longrightarrow>
   schema_ok pr' = schema_ok pr"
  by (simp add: schema_ok_def)

lemma apply_operation_preserves:
  assumes "schema_ok pr" and "unique_ok pr"
  shows "schema_ok (apply_operation oenc dist pr oper) \<and> unique_ok (apply_operation oenc dist pr oper)"
proof (cases oper)
  case (DoInsert obj)
  with assms show ?thesis
    by (simp add: Insert_preserves_unique_ok schema_ok_cong [of "snd (Insert oenc pr obj)" pr])
next
  case (DoDelete ops)
  with assms show ?thesis
    by (simp add: Delete_preserves_unique_ok schema_ok_cong [of "snd (Delete oenc dist pr ops)" pr])
qed

lemma run_preserves:
  assumes "schema_ok pr" and "unique_ok pr"
  shows "schema_ok (run oenc dist pr opers) \<and> unique_ok (run oenc dist pr opers) \<and>
         uniquesMeta (run oenc dist pr opers) = uniquesMeta pr"
  using assms unfolding run_def
proof (induction opers arbitrary: pr)
  case Nil
  then show ?case by simp
next
  case (Cons oper opers)
  from apply_operation_preserves [OF Cons.prems, of oenc dist oper]
  have a: "schema_ok (apply_operation oenc dist pr oper)"
    and b: "unique_ok (apply_operation oenc dist pr oper)" by simp_all
  have m: "uniquesMeta (apply_operation oenc dist pr oper) = uniquesMeta pr"
    by (cases oper) simp_all
  from Cons.IH [OF a b] m show ?case by simp
qed

lemma Insert_updateIndexes_keeps:
  assumes "Insert_updateIndexes oenc obj ident meta idx revIdx = (res, idx', revIdx')"
    and "idx n = Some b" and "x \<in> fst ` set b"
  shows "\<exists>b'. idx' n = Some b' \<and> x \<in> fst ` set b'"
  using assms
proof (induction meta arbitrary: idx revIdx b)
  case Nil
  then show ?case by simp
next
  case (Cons m meta)
  obtain name cols where m: "m = (name, cols)" by (cases m)
  obtain r idx1 where ins: "indexes_insert oenc idx name (keyPartsOf obj cols) ident = (r, idx1)"
    by (cases "indexes_insert oenc idx name (keyPartsOf obj cols) ident")
  have keep1: "\<exists>b1. idx1 n = Some b1 \<and> x \<in> fst ` set b1"
  proof (cases "idx1 = idx")
    case True
    with Cons.prems(2,3) show ?thesis by simp
  next
    case False
    with ins obtain key bk where bk: "idx name = Some bk" and
      i1: "idx1 = idx(name \<mapsto> bucket_Put (key, ident) [] bk)"
      by (auto simp: indexes_insert_def split: option.splits sum.splits)
    show ?thesis
    proof (cases "name = n")
      case True
      with bk Cons.prems(2) have "bk = b" by simp
      with i1 True Cons.prems(3) show ?thesis by (simp add: set_bucket_Put)
    next
      case False
      with i1 Cons.prems(2,3) show ?thesis by simp
    qed
  qed
  show ?case
  proof (cases r)
    case (Inl err)
    with ins Cons.prems(1) have "idx' = idx1" by (simp add: m)
    with keep1 show ?thesis by simp
  next
    case (Inr revIdxField)
    with ins Cons.prems(1) have
      rest: "Insert_updateIndexes oenc obj ident meta idx1
               (AList.update name revIdxField revIdx) = (res, idx', revIdx')"
      by (simp add: m)
    from keep1 obtain b1 where "idx1 n = Some b1" "x \<in> fst ` set b1" by blast
    with rest show ?thesis by (rule Cons.IH)
  qed
qed

lemma Insert_updateIndexes_writes:
  assumes "Insert_updateIndexes oenc obj ident meta idx revIdx = (None, idx', revIdx')"
    and "(n, cols) \<in> set meta"
  shows "\<exists>key b'. oenc (keyPartsOf obj cols) = Some key \<and> idx' n = Some b' \<and>
           (key, ident) \<in> fst ` set b'"
  using assms
proof (induction meta arbitrary: idx revIdx)
  case Nil
  then show ?case by simp
next
  case (Cons m meta)
  obtain name cols' where m: "m = (name, cols')" by (cases m)
  obtain r idx1 where ins: "indexes_insert oenc idx name (keyPartsOf obj cols') ident = (r, idx1)"
    by (cases "indexes_insert oenc idx name (keyPartsOf obj cols') ident")
  from ins Cons.prems(1) obtain revIdxField where r: "r = Inr revIdxField"
    by (cases r) (auto simp: m)
  from ins r Cons.prems(1) have
    rest: "Insert_updateIndexes oenc obj ident meta idx1
             (AList.update name revIdxField revIdx) = (None, idx', revIdx')"
    by (simp add: m)
  show ?case
  proof (cases "(n, cols) = m")
    case True
    from ins r obtain key bk where
      "oenc (keyPartsOf obj cols') = Some key" and
      "idx1 = idx(name \<mapsto> bucket_Put (key, ident) [] bk)"
      by (auto simp: indexes_insert_def orderedMa_Marshal_def split: option.splits)
    with True have k: "oenc (keyPartsOf obj cols) = Some key" and
      b: "idx1 n = Some (bucket_Put (key, ident) [] bk)" and
      x: "(key, ident) \<in> fst ` set (bucket_Put (key, ident) [] bk)"
      by (simp_all add: m set_bucket_Put)
    from Insert_updateIndexes_keeps [OF rest b x] k show ?thesis by blast
  next
    case False
    with Cons.prems(2) have "(n, cols) \<in> set meta" by auto
    with rest show ?thesis by (rule Cons.IH)
  qed
qed

lemma Insert_success_unique_entry:
  assumes "Insert oenc pr0 obj1 = (None, pr)" and "u \<in> set (uniquesMeta pr0)"
  shows "\<exists>key idxBk. oenc (keyPartsOf obj1 (snd u)) = Some key \<and> indexes pr (fst u) = Some idxBk \<and>
           key \<in> indexes_keys idxBk"
proof -
  from assms(1) obtain ident idx1 rev1 idx2 rev2 where
    "Insert_updateIndexes oenc obj1 ident (uniquesMeta pr0) idx1 rev1 = (None, idx2, rev2)" and
    "indexes pr = idx2"
    by (auto simp: Insert_def Let_def split: if_splits option.splits sum.splits prod.splits)
  with Insert_updateIndexes_writes [of oenc obj1 ident "uniquesMeta pr0" idx1 rev1 idx2 rev2
      "fst u" "snd u"] assms(2)
  obtain key b' where "oenc (keyPartsOf obj1 (snd u)) = Some key" "indexes pr (fst u) = Some b'"
    "(key, ident) \<in> fst ` set b'"
    by auto
  then show ?thesis
    by (force simp: indexes_keys_def image_iff)
qed

lemmas demo_rows = demo_row1_def demo_row2_def demo_row3_def

lemma demo_users_insert1: "Insert demo_oenc demo_users demo_row1 = (None, demo_users1)"
  by (simp add: demo_defs demo_rows demo_users1_def model_defs Let_def)

lemma demo_users_insert2:
  "Insert demo_oenc demo_users1 demo_row2 =
     (Some (ErrUniqueConstraint ''email''), demo_users1\<lparr>data := demo_data2\<rparr>)"
  by (simp add: demo_defs demo_rows demo_users1_def demo_data2_def model_defs Let_def)

text \<open>
  C3, as the code has it. After a first row was inserted, \<open>Insert\<close> of an otherwise
  acceptable row with the same values in the columns of a unique index \<open>u\<close> finds the
  entry of the first row in the bucket of \<open>u\<close> and returns \<open>ErrUniqueConstraint\<close> naming
  the first unique index, in the order of the iteration, whose bucket holds an entry
  with the row's key prefix (\<open>u\<close> itself when it is the only one). The IndexStore and the
  ReverseIndexStore are left as they were, but the DataStore is not: the row's payload
  was written under a newly allocated row id before the probe, and the sequence stays
  advanced (the caller is expected to roll the transaction back).
\<close>

theorem Insert_unique_violation:
  assumes first: "Insert oenc pr0 obj1 = (None, pr)"
    and u: "u \<in> set (uniquesMeta pr0)"
    and same: "keyPartsOf obj (snd u) = keyPartsOf obj1 (snd u)"
    and count: "card (dom obj) = length (columns pr)"
    and nomiss: "find (\<lambda>col. obj col = None) (columns pr) = None"
    and ins: "dataStorage_insert oenc (data pr) obj = (Inr ident, d)"
    and wf: "uniques_wf oenc (indexes pr) obj (uniquesMeta pr)"
  shows "unique_hit oenc (indexes pr) obj u \<and>
    (\<exists>u' payload.
       find (unique_hit oenc (indexes pr) obj) (uniquesMeta pr) = Some u' \<and>
       Insert oenc pr obj = (Some (ErrUniqueConstraint (fst u')), pr\<lparr>data := d\<rparr>) \<and>
       Marshal (data_maUn (data pr)) obj = Inr payload \<and>
       bucket_Get ident (data_bucket d) = Some payload \<and>
       data_sequence d = data_sequence (data pr) + 1)"
proof -
  from first have pr: "pr = snd (Insert oenc pr0 obj1)" by simp
  then have meta: "uniquesMeta pr = uniquesMeta pr0" by simp
  from Insert_success_unique_entry [OF first u] same
  have hit: "unique_hit oenc (indexes pr) obj u"
    by (auto simp: unique_hit_def)
  from u meta have "u \<in> set (uniquesMeta pr)" by simp
  from Insert_rejects_hit [OF count nomiss ins wf this hit] hit show ?thesis by simp
qed

theorem Insert_unique_violation_witness:
  "Insert demo_oenc demo_users demo_row1 = (None, demo_users1) \<and>
   keyPartsOf demo_row2 [''email''] = keyPartsOf demo_row1 [''email''] \<and>
   uniques_wf demo_oenc (indexes demo_users1) demo_row2 (uniquesMeta demo_users1) \<and>
   Insert demo_oenc demo_users1 demo_row2 =
     (Some (ErrUniqueConstraint ''email''), demo_users1\<lparr>data := demo_data2\<rparr>) \<and>
   bucket_Get [2] (data_bucket demo_data2) = Some [2, 5]"
proof -
  have u: "(''email'', [''email'']) \<in> set (uniquesMeta demo_users)"
    by (simp add: demo_users_def)
  have same: "keyPartsOf demo_row2 (snd (''email'', [''email''])) =
      keyPartsOf demo_row1 (snd (''email'', [''email'']))"
    by (simp add: keyPartsOf_def demo_rows)
  have count: "card (dom demo_row2) = length (columns demo_users1)"
    by (simp add: demo_rows demo_users1_def)
  have nomiss: "find (\<lambda>col. demo_row2 col = None) (columns demo_users1) = None"
    by (simp add: demo_rows demo_users1_def)
  have ins: "dataStorage_insert demo_oenc (data demo_users1) demo_row2 = (Inr [2], demo_data2)"
    by (simp add: demo_defs demo_rows demo_users1_def demo_data2_def model_defs Let_def)
  have wf: "uniques_wf demo_oenc (indexes demo_users1) demo_row2 (uniquesMeta demo_users1)"
    by (simp add: uniques_wf_def demo_users1_def demo_rows demo_oenc_def keyPartsOf_def)
  have f: "find (unique_hit demo_oenc (indexes demo_users1) demo_row2) (uniquesMeta demo_users1) =
      Some (''email'', [''email''])"
    by (simp add: unique_hit_def demo_users1_def demo_rows demo_oenc_def keyPartsOf_def
        indexes_keys_def)
  from Insert_unique_violation [OF demo_users_insert1 u same count nomiss ins wf] f
  have "Insert demo_oenc demo_users1 demo_row2 =
     (Some (ErrUniqueConstraint ''email''), demo_users1\<lparr>data := demo_data2\<rparr>)"
    and "bucket_Get [2] (data_bucket demo_data2) = Some [2, 5]"
    by (auto simp: demo_maUn_def demo_users1_def demo_rows)
  with demo_users_insert1 same wf show ?thesis by simp
qed

lemma demo_users_insert3:
  "Insert demo_oenc (demo_users1\<lparr>data := demo_data2\<rparr>) demo_row3 = (None, demo_users3)"
  by (simp add: demo_defs demo_rows demo_users1_def demo_data2_def demo_users3_def model_defs
      Let_def)

lemma demo_users_run:
  "run demo_oenc demo_dist demo_users [DoInsert demo_row1, DoInsert demo_row2, DoInsert demo_row3] =
     demo_users3"
  by (simp add: run_def demo_users_insert1 demo_users_insert2 demo_users_insert3)

text \<open>
  C5. Starting from a relation whose unique index buckets satisfy the invariant (an
  empty bucket does), after any sequence of \<open>Insert\<close> and \<open>Delete\<close> calls, failed ones
  included, the bucket of every unique index holds 0 or 1 entries with any given key
  prefix.
\<close>

theorem unique_index_has_no_duplicate_prefix:
  assumes "schema_ok pr" and "unique_ok pr"
    and "u \<in> set (uniquesMeta pr)"
    and "indexes (run oenc dist pr opers) (fst u) = Some idxBk"
  shows "prefixCount key idxBk = 0 \<or> prefixCount key idxBk = 1"
proof -
  from run_preserves [OF assms(1,2), of oenc dist opers] assms(3,4)
  have "prefixCount key idxBk \<le> 1"
    by (auto simp: unique_ok_def)
  then show ?thesis by linarith
qed

theorem unique_index_has_no_duplicate_prefix_witness:
  "schema_ok demo_users \<and> unique_ok demo_users \<and>
   (''email'', [''email'']) \<in> set (uniquesMeta demo_users) \<and>
   indexes (run demo_oenc demo_dist demo_users
      [DoInsert demo_row1, DoInsert demo_row2, DoInsert demo_row3]) ''email'' =
     Some [(([5], [1]), []), (([6], [3]), [])] \<and>
   prefixCount [5] [(([5], [1]), []), (([6], [3]), [])] = 1 \<and>
   (prefixCount [7] [(([5], [1]), []), (([6], [3]), [])] = 0 \<or>
    prefixCount [7] [(([5], [1]), []), (([6], [3]), [])] = 1)"
proof -
  have s: "schema_ok demo_users"
    by (simp add: schema_ok_def demo_users_def)
  have o: "unique_ok demo_users"
    by (simp add: unique_ok_def demo_users_def prefixCount_def)
  have u: "(''email'', [''email'']) \<in> set (uniquesMeta demo_users)"
    by (simp add: demo_users_def)
  have b: "indexes (run demo_oenc demo_dist demo_users
      [DoInsert demo_row1, DoInsert demo_row2, DoInsert demo_row3]) (fst (''email'', [''email''])) =
     Some [(([5], [1]), []), (([6], [3]), [])]"
    by (simp add: demo_users_run demo_users3_def)
  have c: "prefixCount [5] [(([5], [1]), []), (([6], [3]), [])] = 1"
    by (simp add: prefixCount_def)
  from unique_index_has_no_duplicate_prefix [OF s o u b, of "[7]"] s o u b c
  show ?thesis by simp
qed

section \<open>\<open>Select\<close> read as a list of rows\<close>













section \<open>\<open>Delete\<close> after \<open>Insert\<close>\<close>

lemma reverseIdx_get_names_unique:
  assumes "records_name_unique pr" and "reverseIdx_get (reverseIdx pr) ident = Inr revIdx"
  shows "list_ex (\<lambda>nk. map_of (indexesMeta pr) (fst nk) = None) revIdx"
proof -
  from assms(2) have "map_of (reverseIdx pr) ident = Some revIdx"
    by (simp add: reverseIdx_get_def bucket_Get_def split: option.splits)
  then have "(ident, revIdx) \<in> set (reverseIdx pr)"
    by (rule map_of_SomeD)
  with assms(1) show ?thesis
    by (auto simp: records_name_unique_def list_all_iff)
qed

lemma Delete_indexes_fails:
  assumes "list_ex (\<lambda>nk. map_of (indexesMeta pr) (fst nk) = None) revIdx"
  shows "fst (Delete_indexes pr e revIdx idx) \<noteq> None"
  using assms
proof (induction revIdx arbitrary: idx)
  case Nil
  then show ?case by simp
next
  case (Cons nk rest)
  obtain idxName revIdxField where nk: "nk = (idxName, revIdxField)" by (cases nk)
  show ?case
  proof (cases "map_of (indexesMeta pr) idxName")
    case None
    then show ?thesis by (simp add: nk)
  next
    case (Some keyFields)
    with Cons.prems have rest: "list_ex (\<lambda>nk. map_of (indexesMeta pr) (fst nk) = None) rest"
      by (simp add: nk)
    obtain r idx' where d: "indexes_delete idx idxName
        (keyPartsOf (entry_value e) keyFields) revIdxField = (r, idx')"
      by (cases "indexes_delete idx idxName (keyPartsOf (entry_value e) keyFields) revIdxField")
    show ?thesis
    proof (cases r)
      case None
      with Cons.IH [OF rest, of idx'] Some d show ?thesis by (simp add: nk)
    next
      case (Some err)
      with \<open>map_of (indexesMeta pr) idxName = Some keyFields\<close> d show ?thesis
        by (simp add: nk)
    qed
  qed
qed

lemma Delete_body_fails:
  assumes rec: "reverseIdx_get (reverseIdx pr) (entry_id e) = Inr revIdx"
    and name: "list_ex (\<lambda>nk. map_of (indexesMeta pr) (fst nk) = None) revIdx"
  shows "\<exists>pr' err. Delete_body (Inr e) (pr, res) = (False, (pr', Some err)) \<and> Delete_kept pr pr'"
proof -
  obtain r idx' where d: "Delete_indexes pr e revIdx (indexes pr) = (r, idx')"
    by (cases "Delete_indexes pr e revIdx (indexes pr)")
  with Delete_indexes_fails [OF name, of e "indexes pr"] obtain err where r: "r = Some err"
    by auto
  from rec d r show ?thesis
    by (simp add: Delete_body_def Delete_kept_def)
qed

lemma Delete_body_keeps:
  assumes recs: "records_name_unique pr"
  shows "Delete_kept pr (fst (snd (Delete_body item (pr, res))))"
proof (cases item)
  case (Inl err)
  then show ?thesis by (simp add: Delete_body_def Delete_kept_def)
next
  case (Inr e)
  show ?thesis
  proof (cases "reverseIdx_get (reverseIdx pr) (entry_id e)")
    case (Inl err)
    with Inr show ?thesis by (simp add: Delete_body_def Delete_kept_def)
  next
    case r: (Inr revIdx)
    from Delete_body_fails [OF r reverseIdx_get_names_unique [OF recs r], of res] Inr
    show ?thesis by auto
  qed
qed

lemma records_name_unique_kept:
  "Delete_kept pr pr' \<Longrightarrow> records_name_unique pr \<Longrightarrow> records_name_unique pr'"
  by (simp add: Delete_kept_def records_name_unique_def)

lemma Delete_kept_trans:
  "Delete_kept pr pr' \<Longrightarrow> Delete_kept pr' pr'' \<Longrightarrow> Delete_kept pr pr''"
  by (simp add: Delete_kept_def)

text \<open>
  C2. \<open>Delete\<close> looks the names of a row's reverse index record up in \<open>indexesMeta\<close>
  only, whereas \<open>Insert\<close> records the names of \<open>uniquesMeta\<close> there as well. When every
  stored record names an index that \<open>indexesMeta\<close> does not list (a unique index),
  \<open>Delete\<close> removes no row, whatever the operators: the loop stops at the first row
  whose record it can read, with an error, and the DataStore and the
  ReverseIndexStore stay as \<open>Insert\<close> left them.
\<close>

theorem Delete_fails_on_unique_index:
  assumes recs: "records_name_unique pr"
  shows "Delete_kept pr (snd (Delete oenc dist pr ops)) \<and>
     (\<forall>e revIdx res. reverseIdx_get (reverseIdx pr) (entry_id e) = Inr revIdx \<longrightarrow>
        (\<exists>pr' err. Delete_body (Inr e) (pr, res) = (False, (pr', Some err)) \<and>
           Delete_kept pr pr'))"
proof -
  have 1: "Delete_kept pr (snd (Delete oenc dist pr ops))"
  proof (cases "iter oenc dist pr ops :: error + (error + entry, Persistent \<times> error option) seq2")
    case (Inl err)
    then show ?thesis by (simp add: Delete_def Delete_kept_def)
  next
    case (Inr it)
    have step: "\<And>a s. Delete_kept pr (fst s) \<Longrightarrow>
        (case Delete_body a s of (ok, s') \<Rightarrow>
           if ok then Delete_kept pr (fst s') else Delete_kept pr (fst s'))"
    proof -
      fix a and s :: "Persistent \<times> error option"
      assume k: "Delete_kept pr (fst s)"
      obtain pr1 res where s: "s = (pr1, res)" by (cases s)
      from k s have k1: "Delete_kept pr pr1" by simp
      from Delete_body_keeps [OF records_name_unique_kept [OF k1 recs], of a res]
      have "Delete_kept pr (fst (snd (Delete_body a (pr1, res))))"
        by (rule Delete_kept_trans [OF k1])
      then show "case Delete_body a s of (ok, s') \<Rightarrow>
           if ok then Delete_kept pr (fst s') else Delete_kept pr (fst s')"
        unfolding s by (cases "Delete_body a (pr1, res)") auto
    qed
    have init: "Delete_kept pr (fst (pr, None :: error option))"
      by (simp add: Delete_kept_def)
    have "Delete_kept pr (fst (it Delete_body (pr, None))) \<or>
        Delete_kept pr (fst (it Delete_body (pr, None)))"
      by (rule iter_rule [where P = "\<lambda>s. Delete_kept pr (fst s)"
            and Q = "\<lambda>s. Delete_kept pr (fst s)"
            and yield = Delete_body and s = "(pr, None)", OF Inr step init])
    with Inr show ?thesis
      by (auto simp: Delete_def split: prod.splits)
  qed
  have 2: "\<And>e revIdx res. reverseIdx_get (reverseIdx pr) (entry_id e) = Inr revIdx \<Longrightarrow>
        (\<exists>pr' err. Delete_body (Inr e) (pr, res) = (False, (pr', Some err)) \<and>
           Delete_kept pr pr')"
    by (rule Delete_body_fails [OF _ reverseIdx_get_names_unique [OF recs]])
  from 1 2 show ?thesis by blast
qed

lemma Delete_after_Insert_demo:
  "Insert demo_oenc demo_users demo_row1 = (None, demo_users1) \<and>
   Delete demo_oenc demo_dist demo_users1 [Eq ''id'' (VUint64 1)] =
     (Some (ErrIndexMetadataNotFound ''email''), demo_users1)"
proof -
  have r: "toRanges demo_oenc [Eq ''id'' (VUint64 1)] = Inr [(''id'', pointRange [1])]"
    by (simp add: toRanges_def Eq_def orderedMa_Marshal_def opRange_def intersectRange_def
        fullRange_def pointRange_def demo_oenc_def OpEq_def)
  have sel: "selectIndexes demo_users1 [(''id'', pointRange [1])] = []"
    by (simp add: selectIndexes_def demo_users1_def)
  from r sel have it: "(iter demo_oenc demo_dist demo_users1 [Eq ''id'' (VUint64 1)]
        :: error + (error + entry, Persistent \<times> error option) seq2) =
      Inr (iter_fullScan demo_oenc demo_users1 [(''id'', pointRange [1])])"
    by (simp add: iter_def Let_def)
  have d: "data_bucket (data demo_users1) = [([1], [1, 5])]"
    "data_maUn (data demo_users1) = demo_maUn ''id'' ''email''"
    "reverseIdx demo_users1 = [([1], [(''email'', ([5], [1]))])]"
    "indexesMeta demo_users1 = []"
    by (simp_all add: demo_users1_def)
  have u: "Unmarshal (demo_maUn ''id'' ''email'') [1, 5] = Inr demo_row1"
    by (simp add: demo_maUn_def demo_row1_def)
  have m: "matchOps demo_oenc demo_users1 demo_row1 [(''id'', pointRange [1])] [] = Inr True"
    by (simp add: matchOps_def demo_row1_def orderedMa_Marshal_def demo_oenc_def)
  have b: "Delete_body (Inr \<lparr>entry_id = [1], entry_value = demo_row1\<rparr>) (demo_users1, None) =
      (False, (demo_users1, Some (ErrIndexMetadataNotFound ''email'')))"
    by (simp add: Delete_body_def reverseIdx_get_def bucket_Get_def d)
  have "iter_fullScan demo_oenc demo_users1 [(''id'', pointRange [1])] Delete_body (demo_users1, None) =
      (demo_users1, Some (ErrIndexMetadataNotFound ''email''))"
    by (simp add: iter_fullScan_def dataStorage_get_def fullRange_def cursor_First_def d u
        dataStorage_lessThan_def keyRange_contains_def iter_match_def m b)
  with it demo_users_insert1 show ?thesis
    by (simp add: Delete_def)
qed

theorem Delete_fails_on_unique_index_witness:
  "records_name_unique demo_users1 \<and>
   Delete_kept demo_users1 (snd (Delete demo_oenc demo_dist demo_users1 [Eq ''id'' (VUint64 1)])) \<and>
   reverseIdx_get (reverseIdx demo_users1) [1] = Inr [(''email'', ([5], [1]))] \<and>
   (\<exists>pr' err. Delete_body (Inr \<lparr>entry_id = [1], entry_value = demo_row1\<rparr>) (demo_users1, None) =
        (False, (pr', Some err)) \<and> Delete_kept demo_users1 pr')"
proof -
  have n: "records_name_unique demo_users1"
    by (simp add: demo_users1_def records_name_unique_def)
  have g: "reverseIdx_get (reverseIdx demo_users1) [1] = Inr [(''email'', ([5], [1]))]"
    by (simp add: demo_users1_def reverseIdx_get_def bucket_Get_def)
  from Delete_fails_on_unique_index [OF n, of demo_oenc demo_dist "[Eq ''id'' (VUint64 1)]"]
  have 1: "Delete_kept demo_users1
      (snd (Delete demo_oenc demo_dist demo_users1 [Eq ''id'' (VUint64 1)]))"
    and 2: "\<And>e revIdx res. reverseIdx_get (reverseIdx demo_users1) (entry_id e) = Inr revIdx \<Longrightarrow>
        (\<exists>pr' err. Delete_body (Inr e) (demo_users1, res) = (False, (pr', Some err)) \<and>
           Delete_kept demo_users1 pr')"
    by blast+
  from 2 [of "\<lparr>entry_id = [1], entry_value = demo_row1\<rparr>" "[(''email'', ([5], [1]))]" None] g
  have 3: "\<exists>pr' err. Delete_body (Inr \<lparr>entry_id = [1], entry_value = demo_row1\<rparr>)
        (demo_users1, None) = (False, (pr', Some err)) \<and> Delete_kept demo_users1 pr'"
    by simp
  from n 1 g 3 show ?thesis by (intro conjI)
qed

section \<open>The index scan agrees with the full scan\<close>

lemma matchOps_parts_present:
  "list_all (\<lambda>col. obj col \<noteq> None) cols \<Longrightarrow> matchOps_parts obj cols = Inr (keyPartsOf obj cols)"
  by (induction cols) (auto simp: keyPartsOf_def)

lemma matchOps_parts_missing:
  "\<not> list_all (\<lambda>col. obj col \<noteq> None) cols \<Longrightarrow> \<exists>err. matchOps_parts obj cols = Inl err"
  by (induction cols) (auto split: option.splits sum.splits)

lemma matchOps_value_alt:
  "matchOps_value pr obj name =
     (case obj name of
        Some v \<Rightarrow> Some v
      | None \<Rightarrow>
          (case matchOps_cols pr name of
             None \<Rightarrow> None
           | Some cols \<Rightarrow>
               (case matchOps_parts obj cols of Inl err \<Rightarrow> None | Inr parts \<Rightarrow> Some (VList parts))))"
proof -
  have "\<And>cols. (case matchOps_parts obj cols of Inl err \<Rightarrow> None | Inr parts \<Rightarrow> Some (VList parts)) =
      (if list_all (\<lambda>col. obj col \<noteq> None) cols then Some (VList (keyPartsOf obj cols)) else None)"
  proof -
    fix cols
    show "(case matchOps_parts obj cols of Inl err \<Rightarrow> None | Inr parts \<Rightarrow> Some (VList parts)) =
      (if list_all (\<lambda>col. obj col \<noteq> None) cols then Some (VList (keyPartsOf obj cols)) else None)"
    proof (cases "list_all (\<lambda>col. obj col \<noteq> None) cols")
      case True
      with matchOps_parts_present [OF True] show ?thesis by simp
    next
      case False
      from matchOps_parts_missing [OF False] obtain err where "matchOps_parts obj cols = Inl err" ..
      with False show ?thesis by simp
    qed
  qed
  then show ?thesis
    by (simp add: matchOps_value_def cong: option.case_cong)
qed

lemma matchOps_composite_continue:
  "k = skip \<or> obj k \<noteq> None \<Longrightarrow>
     matchOps_composite pr obj skip ((k, r) # ranges) cv = matchOps_composite pr obj skip ranges cv"
  by auto

lemma matchOps_composite_Inr:
  assumes "composite_ok pr obj cv"
    and "matchOps_composite pr obj skip ranges cv = Inr cv'"
  shows "composite_ok pr obj cv' \<and>
     (\<forall>nr \<in> set ranges. fst nr \<noteq> skip \<longrightarrow> obj (fst nr) = None \<longrightarrow> cv' (fst nr) \<noteq> None) \<and>
     (\<forall>name. cv name \<noteq> None \<longrightarrow> cv' name \<noteq> None)"
  using assms
proof (induction ranges arbitrary: cv)
  case Nil
  then show ?case by simp
next
  case (Cons nr ranges)
  obtain k r where nr: "nr = (k, r)" by (cases nr)
  show ?case
  proof (cases "k = skip \<or> obj k \<noteq> None")
    case True
    with Cons.prems(2) have "matchOps_composite pr obj skip ranges cv = Inr cv'"
      unfolding nr by (simp only: matchOps_composite_continue)
    from Cons.IH [OF Cons.prems(1) this] True show ?thesis
      by (auto simp: nr)
  next
    case False
    then have ks: "k \<noteq> skip" and ob: "obj k = None" by auto
    from Cons.prems(2) ks ob obtain cols parts where
      cols: "matchOps_cols pr k = Some cols" and
      parts: "matchOps_parts obj cols = Inr parts" and
      rec: "matchOps_composite pr obj skip ranges (cv(k \<mapsto> VList parts)) = Inr cv'"
      by (auto simp: nr matchOps_cols_def split: option.splits sum.splits)
    from cols parts ob have mv: "matchOps_value pr obj k = Some (VList parts)"
      by (simp add: matchOps_value_alt)
    with Cons.prems(1) ob have ok: "composite_ok pr obj (cv(k \<mapsto> VList parts))"
      by (auto simp: composite_ok_def)
    from Cons.IH [OF ok rec] show ?thesis
      by (auto simp: nr)
  qed
qed

lemma matchOps_composite_Inl:
  assumes "matchOps_composite pr obj skip ranges cv = Inl err"
  shows "\<exists>nr \<in> set ranges. fst nr \<noteq> skip \<and> matchOps_value pr obj (fst nr) = None"
  using assms
proof (induction ranges arbitrary: cv)
  case Nil
  then show ?case by simp
next
  case (Cons nr ranges)
  obtain k r where nr: "nr = (k, r)" by (cases nr)
  show ?case
  proof (cases "k = skip \<or> obj k \<noteq> None")
    case True
    with Cons.prems have "matchOps_composite pr obj skip ranges cv = Inl err"
      unfolding nr by (simp only: matchOps_composite_continue)
    from Cons.IH [OF this] show ?thesis by auto
  next
    case False
    then have ks: "k \<noteq> skip" and ob: "obj k = None" by auto
    show ?thesis
    proof (cases "matchOps_value pr obj k")
      case None
      with ks show ?thesis by (auto simp: nr)
    next
      case (Some v)
      with ob obtain cols parts where
        cols: "matchOps_cols pr k = Some cols" and
        parts: "matchOps_parts obj cols = Inr parts"
        by (auto simp: matchOps_value_alt split: option.splits sum.splits)
      with Cons.prems ks ob have
        "matchOps_composite pr obj skip ranges (cv(k \<mapsto> VList parts)) = Inl err"
        by (auto simp: nr matchOps_cols_def split: option.splits)
      from Cons.IH [OF this] show ?thesis by auto
    qed
  qed
qed

lemma matchOps_test_True:
  assumes "\<forall>nr \<in> set ranges. fst nr \<noteq> skip \<longrightarrow>
      (case cv (fst nr) of Some v \<Rightarrow> Some v | None \<Rightarrow> obj (fst nr)) =
        matchOps_value pr obj (fst nr)"
  shows "(matchOps_test oenc obj skip cv ranges = Inr True) =
     list_all (matchOps_passes oenc pr obj skip) ranges"
  using assms
proof (induction ranges)
  case Nil
  then show ?case by simp
next
  case (Cons nr ranges)
  obtain k r where nr: "nr = (k, r)" by (cases nr)
  from Cons.prems have rest: "\<forall>nr \<in> set ranges. fst nr \<noteq> skip \<longrightarrow>
      (case cv (fst nr) of Some v \<Rightarrow> Some v | None \<Rightarrow> obj (fst nr)) =
        matchOps_value pr obj (fst nr)"
    by simp
  show ?case
  proof (cases "k = skip")
    case True
    with Cons.IH [OF rest] show ?thesis
      by (simp add: nr matchOps_passes_def)
  next
    case False
    with Cons.prems have v: "(case cv k of Some v \<Rightarrow> Some v | None \<Rightarrow> obj k) =
        matchOps_value pr obj k"
      by (simp add: nr cong: option.case_cong)
    show ?thesis
    proof (cases "matchOps_value pr obj k")
      case None
      with False v show ?thesis
        by (simp add: nr matchOps_passes_def matchOps_key_def)
    next
      case (Some x)
      show ?thesis
      proof (cases "orderedMa_Marshal oenc x")
        case (Inl err)
        with False v Some show ?thesis
          by (simp add: nr matchOps_passes_def matchOps_key_def)
      next
        case (Inr vBytes)
        with False v Some Cons.IH [OF rest] show ?thesis
          by (simp add: nr matchOps_passes_def matchOps_key_def)
      qed
    qed
  qed
qed

lemma matchOps_True_iff:
  "(matchOps oenc pr obj ranges skip = Inr True) =
     list_all (matchOps_passes oenc pr obj skip) ranges"
proof (cases "matchOps_composite pr obj skip ranges Map.empty")
  case (Inl err)
  from matchOps_composite_Inl [OF Inl] obtain nr where
    "nr \<in> set ranges" "fst nr \<noteq> skip" "matchOps_value pr obj (fst nr) = None"
    by blast
  then have "\<not> list_all (matchOps_passes oenc pr obj skip) ranges"
    by (auto simp: list_all_iff matchOps_passes_def matchOps_key_def)
  with Inl show ?thesis by (simp add: matchOps_def)
next
  case (Inr cv)
  have "composite_ok pr obj Map.empty"
    by (simp add: composite_ok_def)
  from matchOps_composite_Inr [OF this Inr] have
    ok: "composite_ok pr obj cv" and
    cov: "\<forall>nr \<in> set ranges. fst nr \<noteq> skip \<longrightarrow> obj (fst nr) = None \<longrightarrow> cv (fst nr) \<noteq> None"
    by blast+
  have "\<forall>nr \<in> set ranges. fst nr \<noteq> skip \<longrightarrow>
      (case cv (fst nr) of Some v \<Rightarrow> Some v | None \<Rightarrow> obj (fst nr)) =
        matchOps_value pr obj (fst nr)"
  proof (intro ballI impI)
    fix nr assume nr: "nr \<in> set ranges" "fst nr \<noteq> skip"
    show "(case cv (fst nr) of Some v \<Rightarrow> Some v | None \<Rightarrow> obj (fst nr)) =
        matchOps_value pr obj (fst nr)"
    proof (cases "cv (fst nr)")
      case None
      with cov nr obtain v where "obj (fst nr) = Some v" by auto
      with None show ?thesis by (simp add: matchOps_value_alt)
    next
      case (Some v)
      with ok show ?thesis by (simp add: composite_ok_def)
    qed
  qed
  from matchOps_test_True [OF this] Inr show ?thesis
    by (simp add: matchOps_def)
qed

lemma set_rowsOf: "set (rowsOf items) = {obj. Inr obj \<in> set items}"
  by (induction items) (auto simp: rowsOf_def split: sum.splits)


lemma Inr_in_iter_items:
  "(Inr e \<in> set (iter_items oenc pr ranges skip item)) =
     (item = Inr e \<and> matchOps oenc pr (entry_value e) ranges skip = Inr True)"
  by (auto simp: iter_items_def split: sum.splits)


lemma toList_dataStorage_get_point:
  assumes "bucket_ok (data_bucket d)"
  shows "toList (dataStorage_get d (pointRange ident)) =
     map (dataStorage_item (data_maUn d)) (filter (\<lambda>kv. fst kv = ident) (data_bucket d))"
proof -
  have inc: "includeStart (pointRange ident)"
    by (simp add: pointRange_def)
  show ?thesis
    by (simp add: dataStorage_get_inclusive [OF assms inc])
qed












section \<open>The round trip of \<open>Insert\<close> and \<open>Delete\<close>\<close>

text \<open>
  Every iterator of \<open>iter\<close> is determined by the list of its items: whatever the
  callback, it is fed the items in order until it returns \<open>false\<close>.
\<close>

lemma feed_append:
  "feed yield (xs @ ys) s =
     (case feed yield xs s of (ok, s') \<Rightarrow> if ok then feed yield ys s' else (False, s'))"
  by (induction xs arbitrary: s) (auto split: prod.splits)

lemma feed_concat:
  "feed (\<lambda>x s. feed yield (f x) s) xs s = feed yield (concat (map f xs)) s"
  by (induction xs arbitrary: s) (auto simp: feed_append split: prod.splits)

lemma feed_collect: "feed (\<lambda>a s. (True, s @ [a])) xs s = (True, s @ xs)"
  by (induction xs arbitrary: s) simp_all

lemma dataStorage_get_loop_feed:
  "dataStorage_get_loop mu kr c yield s =
     snd (feed yield (map (dataStorage_item mu) (dataStorage_scanned kr c)) s)"
proof (induction c arbitrary: s)
  case Nil
  then show ?case by (simp add: dataStorage_scanned_def)
next
  case (Cons kv c)
  obtain k v where kv: "kv = (k, v)" by (cases kv)
  show ?case
  proof (cases "Unmarshal mu v")
    case (Inl err)
    then show ?thesis
      by (cases "yield (Inl err) s")
         (simp add: kv Cons.IH dataStorage_item_def dataStorage_scanned_def)
  next
    case (Inr val)
    then show ?thesis
      by (cases "yield (Inr \<lparr>entry_id = k, entry_value = val\<rparr>) s")
         (simp add: kv Cons.IH dataStorage_item_def dataStorage_scanned_def)
  qed
qed

lemma dataStorage_get_feed:
  "dataStorage_get d kr yield s = snd (feed yield (toList (dataStorage_get d kr)) s)"
proof -
  have 1: "toList (dataStorage_get d kr) =
      map (dataStorage_item (data_maUn d))
        (dataStorage_scanned kr
           (let c0 = (case startKey kr of
                  Some sk \<Rightarrow> cursor_Seek sk (data_bucket d)
                | None \<Rightarrow> cursor_First (data_bucket d))
            in if \<not> includeStart kr then cursor_Next c0 else c0))"
    unfolding toList_alt dataStorage_get_def Let_def
    by (simp add: dataStorage_get_loop_feed feed_collect)
  show ?thesis
    unfolding 1 unfolding dataStorage_get_def Let_def
    by (rule dataStorage_get_loop_feed)
qed

lemma indexes_get_loop_feed:
  "indexes_get_loop kr c yield s =
     snd (feed yield (map (\<lambda>kv. snd (fst kv)) (indexes_scanned kr c)) s)"
proof (induction c arbitrary: s)
  case Nil
  then show ?case by (simp add: indexes_scanned_def)
next
  case (Cons kv c)
  obtain key ident v where kv: "kv = ((key, ident), v)" by (cases kv) auto
  show ?case
    by (cases "yield ident s") (simp add: kv Cons.IH indexes_scanned_def)
qed

lemma indexes_get_feed:
  assumes get: "indexes_get idx name kr = Inr idxes"
  shows "idxes yield s = snd (feed yield (indexes_ids idx name kr) s)"
proof -
  from get obtain idxBk where bk: "idx name = Some idxBk" and
    it: "idxes = (\<lambda>yield s. case startKey kr of
           Some sk \<Rightarrow> indexes_get_loop kr (cursor_Seek (sk, []) idxBk) yield s
         | None \<Rightarrow> indexes_get_loop kr (cursor_First idxBk) yield s)"
    by (auto simp: indexes_get_def split: option.splits)
  show ?thesis
    unfolding it indexes_ids_def bk
    by (cases "startKey kr") (simp_all add: indexes_get_loop_feed)
qed

lemma iter_match_feed:
  "iter_match oenc pr ranges skip yield item s =
     feed yield (iter_items oenc pr ranges skip item) s"
  by (auto simp: iter_match_def iter_items_def split: sum.splits prod.splits)

lemma iter_fullScan_feed:
  "iter_fullScan oenc pr ranges yield s =
     snd (feed yield (concat (map (iter_items oenc pr ranges [])
            (toList (dataStorage_get (data pr) fullRange)))) s)"
proof -
  have "iter_match oenc pr ranges [] yield = (\<lambda>x s. feed yield (iter_items oenc pr ranges [] x) s)"
    by (intro ext) (rule iter_match_feed)
  then show ?thesis
    unfolding iter_fullScan_def
    by (subst dataStorage_get_feed) (simp add: feed_concat)
qed

lemma iter_inner_feed:
  "feed (\<lambda>item (s1, returned).
            (case iter_match oenc pr ranges skip yield item s1 of
               (ok, s2) \<Rightarrow> (ok, (s2, \<not> ok)))) items (s, False) =
   (case feed yield (concat (map (iter_items oenc pr ranges skip) items)) s of
      (ok, s') \<Rightarrow> (ok, (s', \<not> ok)))"
proof (induction items arbitrary: s)
  case Nil
  then show ?case by simp
next
  case (Cons item items)
  obtain ok s' where f: "feed yield (iter_items oenc pr ranges skip item) s = (ok, s')"
    by (cases "feed yield (iter_items oenc pr ranges skip item) s")
  then have m: "iter_match oenc pr ranges skip yield item s = (ok, s')"
    by (simp add: iter_match_feed)
  show ?case
    by (simp add: m f feed_append Cons.IH)
qed

lemma iter_outer_feed:
  "(case dataStorage_get (data pr)
           \<lparr>startKey = Some idBytes, endKey = Some idBytes,
            includeStart = True, includeEnd = True, excludes = []\<rparr>
           (\<lambda>item (s1, returned).
              (case iter_match oenc pr ranges skip yield item s1 of
                 (ok, s2) \<Rightarrow> (ok, (s2, \<not> ok))))
           (s0, False) of
      (s3, returned) \<Rightarrow> (\<not> returned, s3)) =
   feed yield (iter_fetched oenc pr ranges skip idBytes) s0"
  by (subst dataStorage_get_feed)
     (simp add: iter_inner_feed iter_fetched_def pointRange_def split: prod.splits)

lemma iter_indexScan_feed:
  assumes get: "indexes_get idx name kr = Inr idxes"
  shows "iter_indexScan oenc pr ranges skip idxes yield s =
     snd (feed yield (concat (map (iter_fetched oenc pr ranges skip) (indexes_ids idx name kr))) s)"
  unfolding iter_indexScan_def iter_outer_feed
  by (subst indexes_get_feed [OF get]) (simp add: feed_concat)

lemma iter_feed:
  assumes "iter oenc dist pr ops = Inr it"
  shows "it yield s = snd (feed yield (iter_entries oenc dist pr ops) s)"
proof -
  from assms obtain ranges where r: "toRanges oenc ops = Inr ranges"
    by (auto simp: iter_def split: sum.splits)
  show ?thesis
  proof (cases "length (selectIndexes pr ranges) = 0")
    case True
    with assms r have i: "it = iter_fullScan oenc pr ranges"
      by (simp add: iter_def)
    from True r have "iter_entries oenc dist pr ops = toList (iter_fullScan oenc pr ranges)"
      by (simp add: iter_entries_def iter_def seqOf_def)
    then show ?thesis
      unfolding i by (simp add: iter_fullScan_feed toList_iter_fullScan)
  next
    case False
    with assms r obtain name kr idxes where
      sr: "shortestRange dist ranges (selectIndexes pr ranges) = Some name" and
      ri: "map_of ranges name = Some kr" and
      g: "indexes_get (indexes pr) name kr = Inr idxes" and
      i: "it = iter_indexScan oenc pr ranges name idxes"
      by (auto simp: iter_def Let_def split: option.splits sum.splits)
    from g obtain idxesL :: "(bytes, (error + entry) list) seq2" where
      gL: "indexes_get (indexes pr) name kr = Inr idxesL"
      by (auto simp: indexes_get_def split: option.splits)
    from False r sr ri gL have
      "iter_entries oenc dist pr ops = toList (iter_indexScan oenc pr ranges name idxesL)"
      by (simp add: iter_entries_def iter_def seqOf_def Let_def)
    then show ?thesis
      unfolding i by (simp add: iter_indexScan_feed [OF g] toList_iter_indexScan [OF gL])
  qed
qed

lemma iter_entries_Inl:
  assumes "iter oenc dist pr ops = Inl err"
  shows "iter_entries oenc dist pr ops = []"
proof -
  have "(iter oenc dist pr ops :: error + (error + entry, (error + entry) list) seq2) = Inl err"
    using assms
    by (auto simp: iter_def Let_def indexes_get_def split: sum.splits option.splits if_splits)
  then show ?thesis
    by (simp add: iter_entries_def seqOf_def toList_alt)
qed

lemma bucket_Delete_Put: "k \<notin> fst ` set b \<Longrightarrow> bucket_Delete k (bucket_Put k v b) = b"
proof (induction b)
  case Nil
  then show ?case by (simp add: bucket_Delete_def)
next
  case (Cons kv b)
  obtain k' v' where kv: "kv = (k', v')" by (cases kv)
  from Cons.prems have ne: "k \<noteq> k'" and notin: "k \<notin> fst ` set b"
    by (auto simp: kv)
  from notin have same: "filter (\<lambda>kv. fst kv \<noteq> k) b = b"
    by (auto simp: filter_id_conv)
  show ?case
  proof (cases "k < k'")
    case True
    with ne same show ?thesis by (simp add: kv bucket_Delete_def)
  next
    case False
    with ne Cons.IH [OF notin] show ?thesis by (simp add: kv bucket_Delete_def)
  qed
qed

lemma AList_update_fresh: "k \<notin> fst ` set al \<Longrightarrow> AList.update k v al = al @ [(k, v)]"
  by (induction al) auto

lemma Insert_updateIndexes_other:
  assumes "Insert_updateIndexes oenc obj ident meta idx revIdx = (res, idx', revIdx')"
    and "n \<notin> fst ` set meta"
  shows "idx' n = idx n"
  using assms
proof (induction meta arbitrary: idx revIdx)
  case Nil
  then show ?case by simp
next
  case (Cons m meta)
  obtain name cols where m: "m = (name, cols)" by (cases m)
  obtain r idx1 where ins: "indexes_insert oenc idx name (keyPartsOf obj cols) ident = (r, idx1)"
    by (cases "indexes_insert oenc idx name (keyPartsOf obj cols) ident")
  from Cons.prems(2) have nn: "n \<noteq> name" and rest: "n \<notin> fst ` set meta"
    by (auto simp: m)
  from ins nn have 1: "idx1 n = idx n"
    by (auto simp: indexes_insert_def split: option.splits sum.splits)
  show ?case
  proof (cases r)
    case (Inl err)
    with ins Cons.prems(1) 1 show ?thesis by (simp add: m)
  next
    case (Inr revIdxField)
    with ins Cons.prems(1) have
      "Insert_updateIndexes oenc obj ident meta idx1 (AList.update name revIdxField revIdx) =
         (res, idx', revIdx')"
      by (simp add: m)
    from Cons.IH [OF this rest] 1 show ?thesis by simp
  qed
qed

lemma Insert_updateIndexes_undone:
  assumes "distinct (map fst meta)"
    and "fst ` set revIdx0 \<inter> fst ` set meta = {}"
    and "\<forall>n \<in> fst ` set meta. map_of (indexesMeta pr) n \<noteq> None"
    and "\<forall>n \<in> fst ` set meta. \<forall>b key. idx n = Some b \<longrightarrow> (key, ident) \<notin> fst ` set b"
    and "Insert_updateIndexes oenc obj ident meta idx revIdx0 = (None, idx1, revIdx1)"
  shows "\<exists>added. revIdx1 = revIdx0 @ added \<and>
     (\<forall>idxA. (\<forall>n \<in> fst ` set meta. idxA n = idx1 n) \<longrightarrow>
        (\<exists>idxB. Delete_indexes pr e added idxA = (None, idxB) \<and>
           (\<forall>n. idxB n = (if n \<in> fst ` set meta then idx n else idxA n))))"
  using assms
proof (induction meta arbitrary: idx revIdx0)
  case Nil
  then show ?case by simp
next
  case (Cons m meta)
  obtain name cols where m: "m = (name, cols)" by (cases m)
  from Cons.prems(5) obtain b key where
    bk: "idx name = Some b" and
    rec: "Insert_updateIndexes oenc obj ident meta
            (idx(name \<mapsto> bucket_Put (key, ident) [] b))
            (AList.update name (key, ident) revIdx0) = (None, idx1, revIdx1)"
    by (auto simp: m indexes_insert_def split: option.splits sum.splits)
  let ?idx' = "idx(name \<mapsto> bucket_Put (key, ident) [] b)"
  from Cons.prems(1) have dist: "distinct (map fst meta)" and
    nn: "name \<notin> fst ` set meta"
    by (auto simp: m)
  from Cons.prems(2) have fresh_name: "name \<notin> fst ` set revIdx0"
    by (auto simp: m)
  then have upd: "AList.update name (key, ident) revIdx0 = revIdx0 @ [(name, (key, ident))]"
    by (rule AList_update_fresh)
  from Cons.prems(2) nn have disj:
    "fst ` set (AList.update name (key, ident) revIdx0) \<inter> fst ` set meta = {}"
    unfolding upd by (auto simp: m)
  from Cons.prems(3) have meta_ok: "\<forall>n \<in> fst ` set meta. map_of (indexesMeta pr) n \<noteq> None"
    by (simp add: m)
  from Cons.prems(3) obtain keyFields where kf: "map_of (indexesMeta pr) name = Some keyFields"
    by (auto simp: m)
  from Cons.prems(4) nn have fresh':
    "\<forall>n \<in> fst ` set meta. \<forall>b key. ?idx' n = Some b \<longrightarrow> (key, ident) \<notin> fst ` set b"
    by (auto simp: m)
  from Cons.prems(4) bk have fresh_b: "(key, ident) \<notin> fst ` set b"
    by (auto simp: m)
  from Cons.IH [OF dist disj meta_ok fresh' rec] obtain added where
    rv: "revIdx1 = AList.update name (key, ident) revIdx0 @ added" and
    undo: "\<forall>idxA. (\<forall>n \<in> fst ` set meta. idxA n = idx1 n) \<longrightarrow>
        (\<exists>idxB. Delete_indexes pr e added idxA = (None, idxB) \<and>
           (\<forall>n. idxB n = (if n \<in> fst ` set meta then ?idx' n else idxA n)))"
    by blast
  from Insert_updateIndexes_other [OF rec nn] have idx1_name:
    "idx1 name = Some (bucket_Put (key, ident) [] b)"
    by simp
  have "\<forall>idxA. (\<forall>n \<in> fst ` set (m # meta). idxA n = idx1 n) \<longrightarrow>
        (\<exists>idxB. Delete_indexes pr e ((name, (key, ident)) # added) idxA = (None, idxB) \<and>
           (\<forall>n. idxB n = (if n \<in> fst ` set (m # meta) then idx n else idxA n)))"
  proof (intro allI impI)
    fix idxA :: indexStore
    assume agree: "\<forall>n \<in> fst ` set (m # meta). idxA n = idx1 n"
    then have a_name: "idxA name = Some (bucket_Put (key, ident) [] b)"
      using idx1_name by (simp add: m)
    let ?idxA' = "idxA(name \<mapsto> b)"
    from a_name fresh_b have del: "indexes_delete idxA name
        (keyPartsOf (entry_value e) keyFields) (key, ident) = (None, ?idxA')"
      by (simp add: indexes_delete_def bucket_Delete_Put)
    from agree nn have "\<forall>n \<in> fst ` set meta. ?idxA' n = idx1 n"
      by (auto simp: m)
    with undo obtain idxB where
      d: "Delete_indexes pr e added ?idxA' = (None, idxB)" and
      v: "\<forall>n. idxB n = (if n \<in> fst ` set meta then ?idx' n else ?idxA' n)"
      by blast
    from kf del d have "Delete_indexes pr e ((name, (key, ident)) # added) idxA = (None, idxB)"
      by simp
    moreover from v bk nn have
      "\<forall>n. idxB n = (if n \<in> fst ` set (m # meta) then idx n else idxA n)"
      by (auto simp: m)
    ultimately show "\<exists>idxB. Delete_indexes pr e ((name, (key, ident)) # added) idxA = (None, idxB) \<and>
           (\<forall>n. idxB n = (if n \<in> fst ` set (m # meta) then idx n else idxA n))"
      by blast
  qed
  moreover from rv upd have "revIdx1 = revIdx0 @ ((name, (key, ident)) # added)"
    by simp
  ultimately show ?case by blast
qed

text \<open>
  In a relation without unique indexes, \<open>Delete\<close> with operators that match exactly
  the row \<open>Insert\<close> has just stored removes what \<open>Insert\<close> wrote: the DataStore, every
  bucket of the IndexStore and the ReverseIndexStore hold the entries they held before
  (the row id sequence stays advanced). The row id is fresh: no store holds an entry
  under it before the insert.
\<close>

lemma Insert_Delete_round_trip:
  assumes uniq: "uniquesMeta pr = []"
    and names: "distinct (map fst (indexesMeta pr))"
    and ins: "Insert oenc pr obj = (None, pr1)"
    and ident: "orderedMa_Marshal oenc (VUint64 (data_sequence (data pr) + 1)) = Inr ident"
    and fresh_d: "ident \<notin> fst ` set (data_bucket (data pr))"
    and fresh_r: "ident \<notin> fst ` set (reverseIdx pr)"
    and fresh_i: "\<forall>n b key. indexes pr n = Some b \<longrightarrow> (key, ident) \<notin> fst ` set b"
    and match: "iter_entries oenc dist pr1 ops = [Inr e]"
    and e_id: "entry_id e = ident"
  shows "\<exists>pr2. Delete oenc dist pr1 ops = (None, pr2) \<and>
     data_bucket (data pr2) = data_bucket (data pr) \<and>
     indexes pr2 = indexes pr \<and> reverseIdx pr2 = reverseIdx pr"
proof -
  from ins ident uniq obtain dataBytes idx1 revIdx1 where
    up: "Insert_updateIndexes oenc obj ident (indexesMeta pr) (indexes pr) [] =
           (None, idx1, revIdx1)" and
    pr1: "pr1 = pr\<lparr>data := (data pr)\<lparr>data_sequence := data_sequence (data pr) + 1,
                        data_bucket := bucket_Put ident dataBytes (data_bucket (data pr))\<rparr>,
                    indexes := idx1,
                    reverseIdx := reverseIdx_insert (reverseIdx pr) ident revIdx1\<rparr>"
    by (auto simp: Insert_def dataStorage_insert_def Let_def
        split: if_splits option.splits sum.splits prod.splits)
  have meta1: "indexesMeta pr1 = indexesMeta pr"
    by (simp add: pr1)
  have "fst ` set ([] :: (string \<times> compositeKey) list) \<inter> fst ` set (indexesMeta pr) = {}"
    by simp
  moreover have "\<forall>n \<in> fst ` set (indexesMeta pr). map_of (indexesMeta pr1) n \<noteq> None"
    unfolding meta1 by (auto simp: map_of_eq_None_iff)
  moreover from fresh_i have "\<forall>n \<in> fst ` set (indexesMeta pr). \<forall>b key.
      indexes pr n = Some b \<longrightarrow> (key, ident) \<notin> fst ` set b"
    by blast
  ultimately obtain added where
    rv: "revIdx1 = [] @ added" and
    undo: "\<forall>idxA. (\<forall>n \<in> fst ` set (indexesMeta pr). idxA n = idx1 n) \<longrightarrow>
        (\<exists>idxB. Delete_indexes pr1 e added idxA = (None, idxB) \<and>
           (\<forall>n. idxB n = (if n \<in> fst ` set (indexesMeta pr) then indexes pr n else idxA n)))"
    using Insert_updateIndexes_undone [OF names _ _ _ up, of pr1 e] by blast
  from undo obtain idxB where
    d: "Delete_indexes pr1 e revIdx1 idx1 = (None, idxB)" and
    v: "\<forall>n. idxB n = (if n \<in> fst ` set (indexesMeta pr) then indexes pr n else idx1 n)"
    using rv by auto
  have "idxB = indexes pr"
  proof
    fix n
    show "idxB n = indexes pr n"
    proof (cases "n \<in> fst ` set (indexesMeta pr)")
      case True
      with v show ?thesis by simp
    next
      case False
      with v Insert_updateIndexes_other [OF up False] show ?thesis by simp
    qed
  qed
  with d have d': "Delete_indexes pr1 e revIdx1 (indexes pr1) = (None, indexes pr)"
    by (simp add: pr1)
  have g: "reverseIdx_get (reverseIdx pr1) (entry_id e) = Inr revIdx1"
    by (simp add: pr1 e_id reverseIdx_get_def reverseIdx_insert_def bucket_Get_Put)
  let ?pr2 = "pr1\<lparr>indexes := indexes pr,
                  reverseIdx := reverseIdx_delete (reverseIdx pr1) (entry_id e),
                  data := dataStorage_delete (data pr1) (entry_id e)\<rparr>"
  from g d' have body: "Delete_body (Inr e) (pr1, None) = (True, (?pr2, None))"
    by (simp add: Delete_body_def)
  from match obtain it :: "(error + entry, Persistent \<times> error option) seq2" where
    it: "iter oenc dist pr1 ops = Inr it"
    using iter_entries_Inl [of oenc dist pr1 ops]
    by (cases "iter oenc dist pr1 ops :: error + (error + entry, Persistent \<times> error option) seq2")
       auto
  from iter_feed [OF it, of Delete_body "(pr1, None)"] match body
  have "it Delete_body (pr1, None) = (?pr2, None)"
    by simp
  with it have del: "Delete oenc dist pr1 ops = (None, ?pr2)"
    by (simp add: Delete_def)
  from fresh_d have "data_bucket (data ?pr2) = data_bucket (data pr)"
    by (simp add: pr1 e_id dataStorage_delete_def bucket_Delete_Put)
  moreover from fresh_r have "reverseIdx ?pr2 = reverseIdx pr"
    by (simp add: pr1 e_id reverseIdx_delete_def reverseIdx_insert_def bucket_Delete_Put)
  moreover have "indexes ?pr2 = indexes pr"
    by simp
  ultimately show ?thesis
    using del by blast
qed

lemma demo_events_insert1:
  "Insert demo_oenc demo_events [''a'' \<mapsto> VUint64 1, ''b'' \<mapsto> VUint64 2] = (None, demo_events1)"
  by (simp add: demo_defs demo_events1_def model_defs Let_def fun_upd_twist)

lemma demo_events1_entries:
  "iter_entries demo_oenc demo_dist demo_events1 [Eq ''a'' (VUint64 1)] =
     [Inr \<lparr>entry_id = [1], entry_value = [''a'' \<mapsto> VUint64 1, ''b'' \<mapsto> VUint64 2]\<rparr>]"
proof -
  let ?ranges = "[(''a'', pointRange [1])]"
  have r: "toRanges demo_oenc [Eq ''a'' (VUint64 1)] = Inr ?ranges"
    by (simp add: toRanges_def Eq_def orderedMa_Marshal_def opRange_def intersectRange_def
        fullRange_def pointRange_def demo_oenc_def OpEq_def)
  have s: "selectIndexes demo_events1 ?ranges = [''a'']"
    by (simp add: selectIndexes_def demo_events1_def)
  have m: "shortestRange demo_dist ?ranges [''a''] = Some ''a''"
    by (simp add: shortestRange_def slices_MinFunc_def)
  have ix: "indexes demo_events1 ''a'' = Some [(([1], [1]), [])]"
    by (simp add: demo_events1_def)
  then obtain idxes :: "(bytes, (error + entry) list) seq2" where
    g: "indexes_get (indexes demo_events1) ''a'' (pointRange [1]) = Inr idxes"
    by (simp add: indexes_get_def)
  from r s m g have "iter_entries demo_oenc demo_dist demo_events1 [Eq ''a'' (VUint64 1)] =
      toList (iter_indexScan demo_oenc demo_events1 ?ranges ''a'' idxes)"
    by (simp add: iter_entries_def iter_def seqOf_def Let_def)
  also have "\<dots> = concat (map (iter_fetched demo_oenc demo_events1 ?ranges ''a'')
      (indexes_ids (indexes demo_events1) ''a'' (pointRange [1])))"
    by (rule toList_iter_indexScan [OF g])
  also have "indexes_ids (indexes demo_events1) ''a'' (pointRange [1]) = [[1]]"
    by (simp add: indexes_ids_def ix indexes_scanned_def cursor_Seek_def)
  finally have 1: "iter_entries demo_oenc demo_dist demo_events1 [Eq ''a'' (VUint64 1)] =
      iter_fetched demo_oenc demo_events1 ?ranges ''a'' [1]"
    by simp
  have d: "data_bucket (data demo_events1) = [([1], [1, 2])]"
    "data_maUn (data demo_events1) = demo_maUn ''a'' ''b''"
    by (simp_all add: demo_events1_def)
  have okd: "bucket_ok (data_bucket (data demo_events1))"
    by (simp add: d bucket_ok_def)
  have u: "Unmarshal (demo_maUn ''a'' ''b'') [1, 2] = Inr [''a'' \<mapsto> VUint64 1, ''b'' \<mapsto> VUint64 2]"
    by (simp add: demo_maUn_def)
  have mo: "matchOps demo_oenc demo_events1 [''a'' \<mapsto> VUint64 1, ''b'' \<mapsto> VUint64 2]
      ?ranges ''a'' = Inr True"
    by (simp add: matchOps_def)
  show ?thesis
    unfolding 1
    by (simp add: iter_fetched_def toList_dataStorage_get_point [OF okd] d dataStorage_item_def u
        iter_items_def mo)
qed

lemma Insert_Delete_round_trip_demo:
  "Insert demo_oenc demo_events [''a'' \<mapsto> VUint64 1, ''b'' \<mapsto> VUint64 2] = (None, demo_events1) \<and>
   (\<exists>pr2. Delete demo_oenc demo_dist demo_events1 [Eq ''a'' (VUint64 1)] = (None, pr2) \<and>
      data_bucket (data pr2) = data_bucket (data demo_events) \<and>
      indexes pr2 = indexes demo_events \<and> reverseIdx pr2 = reverseIdx demo_events)"
proof -
  have u: "uniquesMeta demo_events = []"
    and n: "distinct (map fst (indexesMeta demo_events))"
    and fd: "[1] \<notin> fst ` set (data_bucket (data demo_events))"
    and fr: "[1] \<notin> fst ` set (reverseIdx demo_events)"
    by (simp_all add: demo_events_def)
  have i: "orderedMa_Marshal demo_oenc (VUint64 (data_sequence (data demo_events) + 1)) = Inr [1]"
    by (simp add: demo_events_def orderedMa_Marshal_def demo_oenc_def)
  have fi: "\<forall>n b key. indexes demo_events n = Some b \<longrightarrow> (key, [1]) \<notin> fst ` set b"
    by (simp add: demo_events_def)
  have e: "entry_id \<lparr>entry_id = [1], entry_value = [''a'' \<mapsto> VUint64 1, ''b'' \<mapsto> VUint64 2]\<rparr> = [1]"
    by simp
  from Insert_Delete_round_trip [OF u n demo_events_insert1 i fd fr fi demo_events1_entries e]
    demo_events_insert1
  show ?thesis by blast
qed

section \<open>The planner's choice and its residual filter\<close>

lemma Inr_in_iter_fetched:
  "(Inr e \<in> set (concat (map (iter_fetched oenc pr ranges skip) ids))) =
     (\<exists>ident \<in> set ids.
        Inr e \<in> set (toList (dataStorage_get (data pr) (pointRange ident))) \<and>
        matchOps oenc pr (entry_value e) ranges skip = Inr True)"
  by (auto simp: iter_fetched_def Inr_in_iter_items)

lemma matchOps_passes_rest:
  "list_all (matchOps_passes oenc pr obj skip) ranges =
     (\<forall>nr \<in> set ranges. fst nr \<noteq> skip \<longrightarrow>
        (\<exists>key. matchOps_key oenc pr obj (fst nr) = Some key \<and> keyRange_contains (snd nr) key))"
  by (auto simp: list_all_iff matchOps_passes_def split: option.splits)

text \<open>
  C7. When the compiled ranges mention at least one declared index, \<open>iter\<close> scans a
  mentioned index \<open>chosen\<close> of \<open>allIndexes\<close> whose range has the smallest \<open>distance()\<close>
  under \<open>bytes.Compare\<close> among the mentioned indexes; every mentioned index before it in
  \<open>allIndexes\<close> has a strictly greater distance (ties go to the first). The iterator hands
  over, for each row id the scan of that index yields over its range, the rows fetched
  by that id and filtered by \<open>matchOps\<close> with \<open>chosen\<close> skipped. The residual filter is
  spelled out: an entry is handed over exactly when it is fetched by such an id and,
  for every range but the one of \<open>chosen\<close>, the value \<open>matchOps\<close> tests for the range's
  name (the row's field, or the composite of the index of that name) encodes to a key the
  range contains; \<open>matchOps\<close> with \<open>chosen\<close> skipped returns \<open>true\<close> exactly for these rows
  and does not depend on the range of \<open>chosen\<close>.
\<close>

theorem planner_scans_shortest_index:
  assumes rng: "toRanges oenc ops = Inr ranges"
    and sel: "selectIndexes pr ranges \<noteq> []"
  shows "\<exists>chosen rangeIdx.
     chosen \<in> set (allIndexes pr) \<and> map_of ranges chosen = Some rangeIdx \<and>
     (\<forall>j \<in> set (allIndexes pr). map_of ranges j \<noteq> None \<longrightarrow>
        bytes_Compare (dist rangeIdx) (distanceOf dist ranges j) \<le> 0) \<and>
     (\<forall>j \<in> set (takeWhile (\<lambda>x. x \<noteq> chosen) (allIndexes pr)). map_of ranges j \<noteq> None \<longrightarrow>
        bytes_Compare (dist rangeIdx) (distanceOf dist ranges j) < 0) \<and>
     (indexes pr chosen = None \<longrightarrow>
        (iter oenc dist pr ops :: error + (error + entry, (error + entry) list) seq2) =
          Inl (ErrIndexNotFound chosen)) \<and>
     (indexes pr chosen \<noteq> None \<longrightarrow>
        (\<exists>it. iter oenc dist pr ops = Inr it \<and>
           toList it =
             concat (map (iter_fetched oenc pr ranges chosen)
                       (indexes_ids (indexes pr) chosen rangeIdx)) \<and>
           (\<forall>e. (Inr e \<in> set (toList it)) =
              (\<exists>ident \<in> set (indexes_ids (indexes pr) chosen rangeIdx).
                 Inr e \<in> set (toList (dataStorage_get (data pr) (pointRange ident))) \<and>
                 (\<forall>nr \<in> set ranges. fst nr \<noteq> chosen \<longrightarrow>
                    (\<exists>key. matchOps_key oenc pr (entry_value e) (fst nr) = Some key \<and>
                       keyRange_contains (snd nr) key)))))) \<and>
     (\<forall>value. matchOps oenc pr value ranges chosen =
        matchOps oenc pr value (filter (\<lambda>nr. fst nr \<noteq> chosen) ranges) chosen) \<and>
     (\<forall>value. (matchOps oenc pr value ranges chosen = Inr True) =
        (\<forall>nr \<in> set ranges. fst nr \<noteq> chosen \<longrightarrow>
           (\<exists>key. matchOps_key oenc pr value (fst nr) = Some key \<and>
              keyRange_contains (snd nr) key)))"
proof -
  from shortestRange_first_minimal [OF sel, of dist] obtain chosen rangeIdx where
    sr: "shortestRange dist ranges (selectIndexes pr ranges) = Some chosen" and
    c_all: "chosen \<in> set (allIndexes pr)" and ri: "map_of ranges chosen = Some rangeIdx" and
    min: "\<forall>j \<in> set (allIndexes pr). map_of ranges j \<noteq> None \<longrightarrow>
        distanceOf dist ranges chosen \<le> distanceOf dist ranges j" and
    first: "\<forall>j \<in> set (takeWhile (\<lambda>x. x \<noteq> chosen) (allIndexes pr)). map_of ranges j \<noteq> None \<longrightarrow>
        distanceOf dist ranges chosen < distanceOf dist ranges j"
    by blast
  from ri have d: "distanceOf dist ranges chosen = dist rangeIdx"
    by (simp add: distanceOf_def)
  have it: "(iter oenc dist pr ops :: error + (error + entry, (error + entry) list) seq2) =
      (case indexes_get (indexes pr) chosen rangeIdx of
         Inl err \<Rightarrow> Inl err
       | Inr idxes \<Rightarrow> Inr (iter_indexScan oenc pr ranges chosen idxes))"
    using rng sel sr ri by (simp add: iter_def Let_def)
  have none: "indexes pr chosen = None \<longrightarrow>
      (iter oenc dist pr ops :: error + (error + entry, (error + entry) list) seq2) =
        Inl (ErrIndexNotFound chosen)"
    unfolding it by (simp add: indexes_get_def)
  have passes: "\<And>value. (matchOps oenc pr value ranges chosen = Inr True) =
        (\<forall>nr \<in> set ranges. fst nr \<noteq> chosen \<longrightarrow>
           (\<exists>key. matchOps_key oenc pr value (fst nr) = Some key \<and>
              keyRange_contains (snd nr) key))"
    by (simp only: matchOps_True_iff matchOps_passes_rest)
  have some: "indexes pr chosen \<noteq> None \<longrightarrow>
        (\<exists>it. iter oenc dist pr ops = Inr it \<and>
           toList it =
             concat (map (iter_fetched oenc pr ranges chosen)
                       (indexes_ids (indexes pr) chosen rangeIdx)) \<and>
           (\<forall>e. (Inr e \<in> set (toList it)) =
              (\<exists>ident \<in> set (indexes_ids (indexes pr) chosen rangeIdx).
                 Inr e \<in> set (toList (dataStorage_get (data pr) (pointRange ident))) \<and>
                 (\<forall>nr \<in> set ranges. fst nr \<noteq> chosen \<longrightarrow>
                    (\<exists>key. matchOps_key oenc pr (entry_value e) (fst nr) = Some key \<and>
                       keyRange_contains (snd nr) key)))))"
  proof
    assume "indexes pr chosen \<noteq> None"
    then obtain idxes :: "(bytes, (error + entry) list) seq2" where
      g: "indexes_get (indexes pr) chosen rangeIdx = Inr idxes"
      by (auto simp: indexes_get_def)
    from g have i: "iter oenc dist pr ops = Inr (iter_indexScan oenc pr ranges chosen idxes)"
      unfolding it by simp
    note tl = toList_iter_indexScan [OF g, of oenc pr ranges chosen]
    have "\<forall>e. (Inr e \<in> set (toList (iter_indexScan oenc pr ranges chosen idxes))) =
              (\<exists>ident \<in> set (indexes_ids (indexes pr) chosen rangeIdx).
                 Inr e \<in> set (toList (dataStorage_get (data pr) (pointRange ident))) \<and>
                 (\<forall>nr \<in> set ranges. fst nr \<noteq> chosen \<longrightarrow>
                    (\<exists>key. matchOps_key oenc pr (entry_value e) (fst nr) = Some key \<and>
                       keyRange_contains (snd nr) key)))"
      unfolding tl by (simp only: Inr_in_iter_fetched passes simp_thms)
    with i tl show "\<exists>it. iter oenc dist pr ops = Inr it \<and>
           toList it =
             concat (map (iter_fetched oenc pr ranges chosen)
                       (indexes_ids (indexes pr) chosen rangeIdx)) \<and>
           (\<forall>e. (Inr e \<in> set (toList it)) =
              (\<exists>ident \<in> set (indexes_ids (indexes pr) chosen rangeIdx).
                 Inr e \<in> set (toList (dataStorage_get (data pr) (pointRange ident))) \<and>
                 (\<forall>nr \<in> set ranges. fst nr \<noteq> chosen \<longrightarrow>
                    (\<exists>key. matchOps_key oenc pr (entry_value e) (fst nr) = Some key \<and>
                       keyRange_contains (snd nr) key))))"
      by blast
  qed
  from min have le:
    "\<forall>j \<in> set (allIndexes pr). map_of ranges j \<noteq> None \<longrightarrow>
        bytes_Compare (dist rangeIdx) (distanceOf dist ranges j) \<le> 0"
    unfolding d by (auto simp: bytes_Compare_def)
  from first have lt:
    "\<forall>j \<in> set (takeWhile (\<lambda>x. x \<noteq> chosen) (allIndexes pr)). map_of ranges j \<noteq> None \<longrightarrow>
        bytes_Compare (dist rangeIdx) (distanceOf dist ranges j) < 0"
    unfolding d by (auto simp: bytes_Compare_def)
  show ?thesis
    by (rule exI [of _ chosen], rule exI [of _ rangeIdx])
       (intro conjI c_all ri le lt none some allI matchOps_skip [symmetric] passes)
qed

lemma demo_events2_scan_b:
  "toRanges demo_oenc [Eq ''b'' (VUint64 2), Ge ''a'' (VUint64 2)] = Inr demo_ranges2 \<and>
   selectIndexes demo_events2 demo_ranges2 = [''a'', ''b''] \<and>
   shortestRange demo_dist demo_ranges2 [''a'', ''b''] = Some ''b'' \<and>
   indexes_ids (indexes demo_events2) ''b'' (pointRange [2]) = [[1], [2]] \<and>
   iter_fetched demo_oenc demo_events2 demo_ranges2 ''b'' [1] = [] \<and>
   iter_fetched demo_oenc demo_events2 demo_ranges2 ''b'' [2] =
     [Inr \<lparr>entry_id = [2], entry_value = [''a'' \<mapsto> VUint64 3, ''b'' \<mapsto> VUint64 2]\<rparr>]"
proof -
  have r: "toRanges demo_oenc [Eq ''b'' (VUint64 2), Ge ''a'' (VUint64 2)] = Inr demo_ranges2"
    by (simp add: demo_defs model_defs demo_ranges2_def)
  have s: "selectIndexes demo_events2 demo_ranges2 = [''a'', ''b'']"
    by (simp add: demo_defs model_defs demo_ranges2_def)
  have m: "shortestRange demo_dist demo_ranges2 [''a'', ''b''] = Some ''b''"
    by (simp add: demo_defs model_defs demo_ranges2_def)
  have ix: "indexes demo_events2 ''b'' = Some [(([2], [1]), []), (([2], [2]), [])]"
    by (simp add: demo_events2_def)
  have ids: "indexes_ids (indexes demo_events2) ''b'' (pointRange [2]) = [[1], [2]]"
    by (simp add: indexes_ids_def ix indexes_scanned_def cursor_Seek_def pointRange_def
        keyRange_contains_def indexStorage_lessThanEnd_def)
  have d: "data_bucket (data demo_events2) = [([1], [1, 2]), ([2], [3, 2])]"
    and u: "data_maUn (data demo_events2) = demo_maUn ''a'' ''b''"
    by (simp_all add: demo_events2_def)
  have okd: "bucket_ok (data_bucket (data demo_events2))"
    by (simp add: d bucket_ok_def)
  have m1: "matchOps demo_oenc demo_events2 [''a'' \<mapsto> VUint64 1, ''b'' \<mapsto> VUint64 2]
      demo_ranges2 ''b'' = Inr False"
    by (simp add: matchOps_def demo_ranges2_def orderedMa_Marshal_def demo_oenc_def
        keyRange_contains_def)
  have m2: "matchOps demo_oenc demo_events2 [''a'' \<mapsto> VUint64 3, ''b'' \<mapsto> VUint64 2]
      demo_ranges2 ''b'' = Inr True"
    by (simp add: matchOps_def demo_ranges2_def orderedMa_Marshal_def demo_oenc_def
        keyRange_contains_def)
  have f1: "iter_fetched demo_oenc demo_events2 demo_ranges2 ''b'' [1] = []"
    by (simp add: iter_fetched_def toList_dataStorage_get_point [OF okd] d u
        dataStorage_item_def demo_maUn_def iter_items_def m1)
  have f2: "iter_fetched demo_oenc demo_events2 demo_ranges2 ''b'' [2] =
     [Inr \<lparr>entry_id = [2], entry_value = [''a'' \<mapsto> VUint64 3, ''b'' \<mapsto> VUint64 2]\<rparr>]"
    by (simp add: iter_fetched_def toList_dataStorage_get_point [OF okd] d u
        dataStorage_item_def demo_maUn_def iter_items_def m2)
  from r s m ids f1 f2 show ?thesis by (intro conjI)
qed

theorem planner_scans_shortest_index_witness:
  "toRanges demo_oenc [Eq ''b'' (VUint64 2), Ge ''a'' (VUint64 2)] = Inr demo_ranges2 \<and>
   selectIndexes demo_events2 demo_ranges2 \<noteq> [] \<and>
   (\<exists>chosen rangeIdx.
     chosen \<in> set (allIndexes demo_events2) \<and> map_of demo_ranges2 chosen = Some rangeIdx \<and>
     (\<forall>j \<in> set (allIndexes demo_events2). map_of demo_ranges2 j \<noteq> None \<longrightarrow>
        bytes_Compare (demo_dist rangeIdx) (distanceOf demo_dist demo_ranges2 j) \<le> 0) \<and>
     (\<forall>j \<in> set (takeWhile (\<lambda>x. x \<noteq> chosen) (allIndexes demo_events2)).
        map_of demo_ranges2 j \<noteq> None \<longrightarrow>
        bytes_Compare (demo_dist rangeIdx) (distanceOf demo_dist demo_ranges2 j) < 0) \<and>
     (indexes demo_events2 chosen = None \<longrightarrow>
        (iter demo_oenc demo_dist demo_events2 [Eq ''b'' (VUint64 2), Ge ''a'' (VUint64 2)]
           :: error + (error + entry, (error + entry) list) seq2) =
          Inl (ErrIndexNotFound chosen)) \<and>
     (indexes demo_events2 chosen \<noteq> None \<longrightarrow>
        (\<exists>it. iter demo_oenc demo_dist demo_events2 [Eq ''b'' (VUint64 2), Ge ''a'' (VUint64 2)] =
               Inr it \<and>
           toList it =
             concat (map (iter_fetched demo_oenc demo_events2 demo_ranges2 chosen)
                       (indexes_ids (indexes demo_events2) chosen rangeIdx)) \<and>
           (\<forall>e. (Inr e \<in> set (toList it)) =
              (\<exists>ident \<in> set (indexes_ids (indexes demo_events2) chosen rangeIdx).
                 Inr e \<in> set (toList (dataStorage_get (data demo_events2) (pointRange ident))) \<and>
                 (\<forall>nr \<in> set demo_ranges2. fst nr \<noteq> chosen \<longrightarrow>
                    (\<exists>key. matchOps_key demo_oenc demo_events2 (entry_value e) (fst nr) = Some key \<and>
                       keyRange_contains (snd nr) key)))))) \<and>
     (\<forall>value. matchOps demo_oenc demo_events2 value demo_ranges2 chosen =
        matchOps demo_oenc demo_events2 value (filter (\<lambda>nr. fst nr \<noteq> chosen) demo_ranges2) chosen) \<and>
     (\<forall>value. (matchOps demo_oenc demo_events2 value demo_ranges2 chosen = Inr True) =
        (\<forall>nr \<in> set demo_ranges2. fst nr \<noteq> chosen \<longrightarrow>
           (\<exists>key. matchOps_key demo_oenc demo_events2 value (fst nr) = Some key \<and>
              keyRange_contains (snd nr) key)))) \<and>
   shortestRange demo_dist demo_ranges2 (selectIndexes demo_events2 demo_ranges2) = Some ''b'' \<and>
   (\<exists>it. iter demo_oenc demo_dist demo_events2 [Eq ''b'' (VUint64 2), Ge ''a'' (VUint64 2)] =
          Inr it \<and>
      toList it =
        [Inr \<lparr>entry_id = [2], entry_value = [''a'' \<mapsto> VUint64 3, ''b'' \<mapsto> VUint64 2]\<rparr>])"
proof -
  note demo = demo_events2_scan_b
  from demo have r: "toRanges demo_oenc [Eq ''b'' (VUint64 2), Ge ''a'' (VUint64 2)] =
      Inr demo_ranges2"
    by (rule conjunct1)
  from demo have s: "selectIndexes demo_events2 demo_ranges2 = [''a'', ''b'']"
    by simp
  from demo have m: "shortestRange demo_dist demo_ranges2 (selectIndexes demo_events2 demo_ranges2) =
      Some ''b''"
    by simp
  from s have ne: "selectIndexes demo_events2 demo_ranges2 \<noteq> []" by simp
  have ri: "map_of demo_ranges2 ''b'' = Some (pointRange [2])"
    by (simp add: demo_ranges2_def pointRange_def)
  have ix: "indexes demo_events2 ''b'' = Some [(([2], [1]), []), (([2], [2]), [])]"
    by (simp add: demo_events2_def)
  then obtain idxes :: "(bytes, (error + entry) list) seq2" where
    g: "indexes_get (indexes demo_events2) ''b'' (pointRange [2]) = Inr idxes"
    by (auto simp: indexes_get_def)
  from r ne m ri g have it:
    "iter demo_oenc demo_dist demo_events2 [Eq ''b'' (VUint64 2), Ge ''a'' (VUint64 2)] =
       Inr (iter_indexScan demo_oenc demo_events2 demo_ranges2 ''b'' idxes)"
    by (simp add: iter_def Let_def)
  from demo have rows: "toList (iter_indexScan demo_oenc demo_events2 demo_ranges2 ''b'' idxes) =
      [Inr \<lparr>entry_id = [2], entry_value = [''a'' \<mapsto> VUint64 3, ''b'' \<mapsto> VUint64 2]\<rparr>]"
    by (simp add: toList_iter_indexScan [OF g])
  from it rows have run:
    "\<exists>it. iter demo_oenc demo_dist demo_events2 [Eq ''b'' (VUint64 2), Ge ''a'' (VUint64 2)] =
          Inr it \<and>
      toList it =
        [Inr \<lparr>entry_id = [2], entry_value = [''a'' \<mapsto> VUint64 3, ''b'' \<mapsto> VUint64 2]\<rparr>]"
    by blast
  from r ne m run planner_scans_shortest_index [OF r ne, of demo_dist] show ?thesis
    by (intro conjI)
qed

section \<open>\<open>Insert\<close> keeps the indexes consistent with the DataStore\<close>






















section \<open>The index scan and the full scan of a relation built by \<open>Insert\<close>\<close>







section \<open>\<open>Select\<close> with \<open>Ne\<close>\<close>








end
